theory Spec2Isabelle
  imports Main "HOL-Library.Word" "HOL-Library.Char_ord"
begin

unbundle bit_operations_syntax

section \<open>Machine types and outcomes\<close>

text \<open>
  The C sources use \<open>size_t\<close> for every index, length and counter; it is taken at the
  64-bit width of the Linux target the project builds for, so \<open>+\<close> wraps modulo
  \<open>2 ^ 64\<close> as unsigned C arithmetic does. \<open>uint8_t\<close> and \<open>uint32_t\<close> are 8- and
  32-bit words.

  A pointer the source tests against \<open>NULL\<close> is an \<open>option\<close> (\<open>None\<close> is
  \<open>NULL\<close>, \<open>Some x\<close> a valid pointer to \<open>x\<close>). A pointer the source dereferences
  without a test is taken to be valid. An array is the list of its elements; an access
  outside the list, a dereference of a null array and a division by zero are undefined
  behaviour in C and are the outcome \<open>Undefined_Behaviour\<close> here.
\<close>

type_synonym size_t = "64 word"
type_synonym uint8_t = "8 word"
type_synonym uint32_t = "32 word"

datatype 'a outcome = Undefined_Behaviour | Return 'a

section \<open>queue_manager.c\<close>

text \<open>\<open>QueueItem\<close>: a payload buffer and its length. The queue copies items whole.\<close>

record QueueItem =
  data_item :: string
  length_item :: size_t

record Queue =
  items :: "QueueItem list option"
  capacity :: size_t
  head :: size_t
  tail :: size_t
  count :: size_t

definition queue_is_full :: "Queue option \<Rightarrow> bool" where
  "queue_is_full q = (case q of None \<Rightarrow> False | Some q \<Rightarrow> count q = capacity q)"

definition queue_is_empty :: "Queue option \<Rightarrow> bool" where
  "queue_is_empty q = (case q of None \<Rightarrow> True | Some q \<Rightarrow> count q = 0)"

text \<open>
  \<open>sizeof(QueueItem)\<close>: 256 bytes of payload and an 8-byte \<open>size_t\<close>, 264 bytes.

  \<open>queue_init q capacity malloc_result\<close>. The request is
  \<open>malloc(sizeof(QueueItem) * capacity)\<close>, a \<open>size_t\<close> product that wraps modulo
  \<open>2 ^ 64\<close>. \<open>malloc_result\<close> is the allocator's answer: \<open>None\<close> for \<open>NULL\<close>, otherwise
  the uninitialised contents of the new block (slot \<open>i\<close> holds \<open>garbage i\<close>). The block
  has the requested number of bytes, so it holds as many whole items as fit in the
  wrapped product, which is fewer than \<open>capacity\<close> once the product wraps. The pointer is
  stored in the queue before it is tested, so a failed allocation leaves \<open>items = NULL\<close>
  behind.
\<close>

definition sizeof_QueueItem :: size_t where
  "sizeof_QueueItem = 264"

definition queue_init :: "Queue option \<Rightarrow> size_t \<Rightarrow> (nat \<Rightarrow> QueueItem) option \<Rightarrow> bool \<times> Queue option" where
  "queue_init q cap malloc_result =
     (case q of
        None \<Rightarrow> (False, None)
      | Some q0 \<Rightarrow>
          if cap = 0 then (False, Some q0)
          else (case malloc_result of
                  None \<Rightarrow> (False, Some (q0\<lparr>items := None\<rparr>))
                | Some garbage \<Rightarrow>
                    (let bytes = sizeof_QueueItem * cap;
                         slots = map garbage [0..<unat bytes div unat sizeof_QueueItem]
                     in (True, Some (q0\<lparr>items := Some slots, capacity := cap,
                                          head := 0, tail := 0, count := 0\<rparr>)))))"

definition queue_destroy :: "Queue option \<Rightarrow> Queue option" where
  "queue_destroy q =
     (case q of
        None \<Rightarrow> None
      | Some q0 \<Rightarrow>
          (case items q0 of
             None \<Rightarrow> Some q0
           | Some slots \<Rightarrow>
               Some (q0\<lparr>items := None, capacity := 0, head := 0, tail := 0, count := 0\<rparr>)))"

definition queue_enqueue :: "Queue option \<Rightarrow> QueueItem option \<Rightarrow> (bool \<times> Queue option) outcome" where
  "queue_enqueue q item =
     (case q of
        None \<Rightarrow> Return (False, None)
      | Some q0 \<Rightarrow>
          (case item of
             None \<Rightarrow> Return (False, Some q0)
           | Some it \<Rightarrow>
               if queue_is_full (Some q0) then Return (False, Some q0)
               else (case items q0 of
                       None \<Rightarrow> Undefined_Behaviour
                     | Some slots \<Rightarrow>
                         if length slots \<le> unat (tail q0) then Undefined_Behaviour
                         else if capacity q0 = 0 then Undefined_Behaviour
                         else Return (True,
                                Some (q0\<lparr>items := Some (slots[unat (tail q0) := it]),
                                         tail := (tail q0 + 1) mod capacity q0,
                                         count := count q0 + 1\<rparr>)))))"

text \<open>
  \<open>queue_dequeue q out_item\<close>: \<open>out_item\<close> is the destination the caller passes, with
  its present contents; the third component of the result is the destination afterwards.
\<close>

definition queue_dequeue :: "Queue option \<Rightarrow> QueueItem option \<Rightarrow> (bool \<times> Queue option \<times> QueueItem option) outcome" where
  "queue_dequeue q out_item =
     (case q of
        None \<Rightarrow> Return (False, None, out_item)
      | Some q0 \<Rightarrow>
          (case out_item of
             None \<Rightarrow> Return (False, Some q0, None)
           | Some old \<Rightarrow>
               if queue_is_empty (Some q0) then Return (False, Some q0, Some old)
               else (case items q0 of
                       None \<Rightarrow> Undefined_Behaviour
                     | Some slots \<Rightarrow>
                         if length slots \<le> unat (head q0) then Undefined_Behaviour
                         else if capacity q0 = 0 then Undefined_Behaviour
                         else Return (True,
                                Some (q0\<lparr>head := (head q0 + 1) mod capacity q0,
                                         count := count q0 - 1\<rparr>),
                                Some (slots ! unat (head q0))))))"

subsection \<open>Running a sequence of queue operations\<close>

text \<open>
  A caller's sequence of operations on one queue: each \<open>Enqueue\<close> passes an item, each
  \<open>Dequeue\<close> passes the caller's destination variable \<open>out\<close>. What the caller observes
  is the flag each call returns and, for a dequeue, the destination after the call.
\<close>

datatype queue_op = Enqueue QueueItem | Dequeue

datatype queue_obs = Enqueue_returned bool | Dequeue_returned bool QueueItem

fun queue_run :: "Queue option \<Rightarrow> QueueItem \<Rightarrow> queue_op list \<Rightarrow> (queue_obs list \<times> Queue option \<times> QueueItem) outcome" where
  "queue_run q out [] = Return ([], q, out)"
| "queue_run q out (Enqueue it # ops) =
     (case queue_enqueue q (Some it) of
        Undefined_Behaviour \<Rightarrow> Undefined_Behaviour
      | Return (ok, q') \<Rightarrow>
          (case queue_run q' out ops of
             Undefined_Behaviour \<Rightarrow> Undefined_Behaviour
           | Return (obs, r) \<Rightarrow> Return (Enqueue_returned ok # obs, r)))"
| "queue_run q out (Dequeue # ops) =
     (case queue_dequeue q (Some out) of
        Undefined_Behaviour \<Rightarrow> Undefined_Behaviour
      | Return (ok, q', dest) \<Rightarrow>
          (let out' = (case dest of None \<Rightarrow> out | Some x \<Rightarrow> x)
           in case queue_run q' out' ops of
                Undefined_Behaviour \<Rightarrow> Undefined_Behaviour
              | Return (obs, r) \<Rightarrow> Return (Dequeue_returned ok out' # obs, r)))"

text \<open>
  The specification's queue: a list in arrival order, bounded by the capacity, read at
  the front. It is the reference the circular buffer is compared with.
\<close>

fun fifo_run :: "nat \<Rightarrow> QueueItem list \<Rightarrow> QueueItem \<Rightarrow> queue_op list \<Rightarrow> queue_obs list \<times> QueueItem list \<times> QueueItem" where
  "fifo_run cap xs out [] = ([], xs, out)"
| "fifo_run cap xs out (Enqueue it # ops) =
     (if length xs < cap
      then (case fifo_run cap (xs @ [it]) out ops of (obs, r) \<Rightarrow> (Enqueue_returned True # obs, r))
      else (case fifo_run cap xs out ops of (obs, r) \<Rightarrow> (Enqueue_returned False # obs, r)))"
| "fifo_run cap xs out (Dequeue # ops) =
     (case xs of
        [] \<Rightarrow> (case fifo_run cap [] out ops of (obs, r) \<Rightarrow> (Dequeue_returned False out # obs, r))
      | x # xs' \<Rightarrow> (case fifo_run cap xs' x ops of (obs, r) \<Rightarrow> (Dequeue_returned True x # obs, r)))"

text \<open>
  The items a circular buffer holds, oldest first: \<open>count\<close> slots from \<open>head\<close>, modulo
  the capacity. \<open>queue_inv\<close> is the representation invariant of the indices, with every
  occupied slot inside the block; \<open>queue_sized\<close> says that the block has \<open>capacity\<close>
  slots.
\<close>

definition queue_contents :: "Queue \<Rightarrow> QueueItem list" where
  "queue_contents q =
     (case items q of
        None \<Rightarrow> []
      | Some slots \<Rightarrow>
          map (\<lambda>k. slots ! ((unat (head q) + k) mod unat (capacity q))) [0..<unat (count q)])"

definition queue_inv :: "Queue \<Rightarrow> bool" where
  "queue_inv q \<longleftrightarrow>
     (case items q of
        None \<Rightarrow> False
      | Some slots \<Rightarrow>
          list_all (\<lambda>k. (unat (head q) + k) mod unat (capacity q) < length slots)
            [0..<unat (count q)])
     \<and> capacity q \<noteq> 0 \<and> count q \<le> capacity q \<and> head q < capacity q \<and> tail q < capacity q
     \<and> unat (tail q) = (unat (head q) + unat (count q)) mod unat (capacity q)"

definition queue_sized :: "Queue \<Rightarrow> bool" where
  "queue_sized q \<longleftrightarrow>
     (case items q of None \<Rightarrow> False | Some slots \<Rightarrow> length slots = unat (capacity q))"

text \<open>
  The items of the enqueues that returned true, and the items of the dequeues that
  returned true, both in call order.
\<close>

fun accepted :: "queue_op list \<Rightarrow> queue_obs list \<Rightarrow> QueueItem list" where
  "accepted (Enqueue it # ops) (Enqueue_returned ok # obs) =
     (if ok then it # accepted ops obs else accepted ops obs)"
| "accepted (op # ops) (ob # obs) = accepted ops obs"
| "accepted ops obs = []"

fun delivered :: "queue_obs list \<Rightarrow> QueueItem list" where
  "delivered [] = []"
| "delivered (Dequeue_returned ok x # obs) = (if ok then x # delivered obs else delivered obs)"
| "delivered (Enqueue_returned ok # obs) = delivered obs"

text \<open>Sample items, a successful allocation whose block holds \<open>item_U\<close> in every slot, and a
  zero-initialised queue structure as \<open>main\<close> declares it.\<close>

abbreviation item_A :: QueueItem where "item_A \<equiv> \<lparr>data_item = ''A'', length_item = 1\<rparr>"
abbreviation item_B :: QueueItem where "item_B \<equiv> \<lparr>data_item = ''BB'', length_item = 2\<rparr>"
abbreviation item_C :: QueueItem where "item_C \<equiv> \<lparr>data_item = ''CCC'', length_item = 3\<rparr>"
abbreviation item_U :: QueueItem where "item_U \<equiv> \<lparr>data_item = [], length_item = 0\<rparr>"
abbreviation fresh_block :: "(nat \<Rightarrow> QueueItem) option" where
  "fresh_block \<equiv> Some (\<lambda>i. item_U)"
abbreviation zero_queue :: Queue where
  "zero_queue \<equiv> \<lparr>items = None, capacity = 0, head = 0, tail = 0, count = 0\<rparr>"

section \<open>bit_parser.c\<close>

record BitParser =
  data :: "uint8_t list"
  bit_length :: size_t
  bit_pos :: size_t

definition bit_parser_init :: "uint8_t list \<Rightarrow> size_t \<Rightarrow> BitParser" where
  "bit_parser_init buf len = \<lparr>data = buf, bit_length = len, bit_pos = 0\<rparr>"

text \<open>
  The loop of \<open>bit_parser_read\<close>, from counter \<open>i\<close> with the bits gathered so far in
  \<open>v\<close>. All of \<open>bit_pos + i\<close>, \<open>/ 8\<close> and \<open>% 8\<close> are \<open>size_t\<close> arithmetic.
\<close>

function read_loop :: "BitParser \<Rightarrow> size_t \<Rightarrow> size_t \<Rightarrow> uint32_t \<Rightarrow> uint32_t outcome" where
  "read_loop parser num_bits i v =
     (if i < num_bits then
        (let byte_idx = (bit_pos parser + i) div 8;
             bit_idx = 7 - ((bit_pos parser + i) mod 8)
         in if length (data parser) \<le> unat byte_idx then Undefined_Behaviour
            else (let b = drop_bit (unat bit_idx) (data parser ! unat byte_idx) AND (1 :: uint8_t)
                  in read_loop parser num_bits (i + 1) (push_bit 1 v OR ucast b)))
      else Return v)"
  by pat_completeness auto
termination
proof (relation "measure (\<lambda>(parser, num_bits, i, v). unat num_bits - unat i)")
  show "wf (measure (\<lambda>(parser, num_bits, i, v). unat num_bits - unat i))"
    by simp
next
  fix parser :: BitParser and num_bits i :: size_t and v :: uint32_t
    and x xa :: size_t and xb :: uint8_t
  assume lt: "i < num_bits"
  from lt have a: "unat i < unat num_bits"
    by (simp add: word_less_nat_alt)
  have b: "unat num_bits < 2 ^ LENGTH(64)"
    by (rule unsigned_less)
  have c: "unat (1 :: size_t) = 1"
    by simp
  from a b c have "unat i + unat (1 :: size_t) < 2 ^ LENGTH(64)"
    by linarith
  then have "unat (i + 1) = unat i + unat (1 :: size_t)"
    by (simp only: unat_add_lem [THEN iffD1])
  with a c show "((parser, num_bits, i + 1, push_bit 1 v OR ucast xb), parser, num_bits, i, v)
      \<in> measure (\<lambda>(parser, num_bits, i, v). unat num_bits - unat i)"
    by simp
qed

declare read_loop.simps [simp del]

definition bit_parser_read :: "BitParser \<Rightarrow> size_t \<Rightarrow> (uint32_t \<times> BitParser) outcome" where
  "bit_parser_read parser num_bits =
     (if num_bits = 0 \<or> num_bits > 32 then Return (0, parser)
      else if bit_pos parser + num_bits > bit_length parser then Return (0, parser)
      else (case read_loop parser num_bits 0 0 of
              Undefined_Behaviour \<Rightarrow> Undefined_Behaviour
            | Return v \<Rightarrow> Return (v, parser\<lparr>bit_pos := bit_pos parser + num_bits\<rparr>)))"

definition bit_parser_skip :: "BitParser \<Rightarrow> size_t \<Rightarrow> BitParser" where
  "bit_parser_skip parser num_bits =
     (if bit_pos parser + num_bits \<le> bit_length parser
      then parser\<lparr>bit_pos := bit_pos parser + num_bits\<rparr>
      else parser\<lparr>bit_pos := bit_length parser\<rparr>)"

definition bit_parser_reset :: "BitParser \<Rightarrow> BitParser" where
  "bit_parser_reset parser = parser\<lparr>bit_pos := 0\<rparr>"

subsection \<open>The bit indexing rule of the specification\<close>

text \<open>
  Absolute bit \<open>i\<close> of a buffer is bit \<open>7 - i mod 8\<close> of byte \<open>i div 8\<close>. The value
  of \<open>n\<close> bits from position \<open>pos\<close>, most significant first, gives bit \<open>pos + k\<close> the
  weight \<open>2 ^ (n - 1 - k)\<close>.
\<close>

definition stream_bit :: "uint8_t list \<Rightarrow> nat \<Rightarrow> nat" where
  "stream_bit B i = (if bit (B ! (i div 8)) (7 - i mod 8) then 1 else 0)"

definition msb_first_value :: "uint8_t list \<Rightarrow> nat \<Rightarrow> nat \<Rightarrow> nat" where
  "msb_first_value B pos n = (\<Sum>k<n. stream_bit B (pos + k) * 2 ^ (n - 1 - k))"

section \<open>nmea.c\<close>

text \<open>
  The accumulator record. \<open>lat_deg\<close> and \<open>lon_deg\<close> are C doubles computed by
  \<open>nmea_deg_to_decimal\<close> with \<open>atof\<close> and floating-point arithmetic; their type is
  left open as \<open>'d\<close> and that conversion is a parameter \<open>deg_to_decimal\<close> of the
  decoder, applied to the two tokens the source passes. The C library's \<open>atoi\<close> is a
  parameter as well. No property below depends on what either computes.
\<close>

record 'd nmea_info_t =
  has_fix :: bool
  fix_quality :: int
  sats :: int
  lat_deg :: 'd
  lon_deg :: 'd
  time_utc :: string

text \<open>
  C strings. A \<open>char *\<close> is the list of the characters that can be read from the
  pointer on, and the terminating NUL follows the last of them: reading at the end of the
  list reads that NUL, reading beyond it is outside the string. The string a pointer
  denotes ends at the first NUL (\<open>c_str\<close>). \<open>p + k\<close> is \<open>drop k p\<close>. \<open>strncpy src n\<close>
  is the string in the destination after \<open>strncpy(dst, src, n); dst[n] = 0\<close>.
\<close>

definition deref :: "string \<Rightarrow> char" where
  "deref p = (case p of [] \<Rightarrow> CHR 0x00 | c # _ \<Rightarrow> c)"

definition c_str :: "string \<Rightarrow> string" where
  "c_str p = takeWhile (\<lambda>c. c \<noteq> CHR 0x00) p"

definition strncpy :: "string \<Rightarrow> nat \<Rightarrow> string" where
  "strncpy src n = take n (c_str src)"

text \<open>
  \<open>hex2uc\<close>. The comparisons are on character codes; a \<open>char\<close> with the top bit set
  lies in none of the three ranges whether \<open>char\<close> is signed or not.
\<close>

definition hex2uc :: "char \<Rightarrow> uint8_t" where
  "hex2uc c =
     (if CHR ''0'' \<le> c \<and> c \<le> CHR ''9'' then of_char c - of_char CHR ''0''
      else if CHR ''A'' \<le> c \<and> c \<le> CHR ''F'' then of_char c - of_char CHR ''A'' + 10
      else if CHR ''a'' \<le> c \<and> c \<le> CHR ''f'' then of_char c - of_char CHR ''a'' + 10
      else 0xFF)"

text \<open>The loop \<open>while (*p && *p != '*') { cs ^= *p; p++; }\<close>, returning \<open>cs\<close> and \<open>p\<close>.\<close>

fun checksum_scan :: "uint8_t \<Rightarrow> string \<Rightarrow> uint8_t \<times> string" where
  "checksum_scan cs [] = (cs, [])"
| "checksum_scan cs (c # p) =
     (if c \<noteq> CHR 0x00 \<and> c \<noteq> CHR ''*'' then checksum_scan (cs XOR of_char c) p
      else (cs, c # p))"

text \<open>
  \<open>checksum_ok\<close>. Both \<open>*(p + 1)\<close> and \<open>*(p + 2)\<close> are read before \<open>hi\<close> is tested.
  When the line ends right after the \<open>*\<close>, \<open>p + 1\<close> is the terminator and \<open>p + 2\<close> is
  read outside the string: \<open>Undefined_Behaviour\<close>. The final comparison is made in
  \<open>int\<close>, to which \<open>cs\<close>, \<open>hi\<close> and \<open>lo\<close> are promoted.
\<close>

definition checksum_ok :: "string option \<Rightarrow> bool outcome" where
  "checksum_ok line =
     (case line of
        None \<Rightarrow> Return False
      | Some l \<Rightarrow>
          if deref l \<noteq> CHR ''$'' then Return False
          else (case checksum_scan 0 (drop 1 l) of
                  (cs, p) \<Rightarrow>
                    if deref p \<noteq> CHR ''*'' then Return False
                    else if length p < 2 then Undefined_Behaviour
                    else (let hi = hex2uc (deref (drop 1 p));
                              lo = hex2uc (deref (drop 2 p))
                          in if hi = 0xFF \<or> lo = 0xFF then Return False
                             else Return ((ucast cs :: 32 word) = (push_bit 4 (ucast hi) OR ucast lo)))))"

text \<open>
  \<open>strtok(s, ",")\<close>: skips leading commas; returns the token up to the next comma (or
  \<open>NULL\<close> when nothing is left) together with the position it saves for the next call
  \<open>strtok(NULL, ",")\<close>.
\<close>

definition strtok :: "string \<Rightarrow> string option \<times> string" where
  "strtok s =
     (let s1 = dropWhile (\<lambda>c. c = CHR '','') s
      in if s1 = [] then (None, [])
         else (Some (takeWhile (\<lambda>c. c \<noteq> CHR '','') s1),
               drop 1 (dropWhile (\<lambda>c. c \<noteq> CHR '','') s1)))"

text \<open>
  The loop \<open>for (t = strtok(p, ","); t && n < 16; t = strtok(NULL, ",")) f[n++] = t\<close>.
  The list \<open>f\<close> holds the \<open>n\<close> entries stored so far; entries from \<open>n\<close> on are \<open>NULL\<close>.
\<close>

function fields_loop :: "string option \<Rightarrow> string \<Rightarrow> string list \<Rightarrow> string list" where
  "fields_loop t rest f =
     (case t of
        None \<Rightarrow> f
      | Some tok \<Rightarrow>
          if length f < 16
          then (case strtok rest of (t', rest') \<Rightarrow> fields_loop t' rest' (f @ [tok]))
          else f)"
  by pat_completeness auto
termination
  by (relation "measure (\<lambda>(t, rest, f). 16 - length f)") auto

declare fields_loop.simps [simp del]

definition split_fields :: "string \<Rightarrow> string list" where
  "split_fields p = (case strtok p of (t, rest) \<Rightarrow> fields_loop t rest [])"

text \<open>The field updates of the GGA branch and of the RMC branch, in source order.\<close>

definition gga_fields :: "(string \<Rightarrow> int) \<Rightarrow> (string \<Rightarrow> string \<Rightarrow> 'd) \<Rightarrow> string list \<Rightarrow> 'd nmea_info_t \<Rightarrow> 'd nmea_info_t" where
  "gga_fields atoi deg_to_decimal f out =
     (let n = length f;
          out1 = (if n > 1 \<and> f ! 1 \<noteq> [] then out\<lparr>time_utc := strncpy (f ! 1) 15\<rparr> else out);
          out2 = (if n > 6 \<and> f ! 6 \<noteq> []
                  then out1\<lparr>fix_quality := atoi (f ! 6), has_fix := (atoi (f ! 6) > 0)\<rparr>
                  else out1);
          out3 = (if n > 7 \<and> f ! 7 \<noteq> [] then out2\<lparr>sats := atoi (f ! 7)\<rparr> else out2)
      in if n > 5
         then out3\<lparr>lat_deg := deg_to_decimal (f ! 2) (f ! 3), lon_deg := deg_to_decimal (f ! 4) (f ! 5)\<rparr>
         else out3)"

definition rmc_fields :: "(string \<Rightarrow> string \<Rightarrow> 'd) \<Rightarrow> string list \<Rightarrow> 'd nmea_info_t \<Rightarrow> 'd nmea_info_t" where
  "rmc_fields deg_to_decimal f out =
     (let n = length f;
          out1 = (if n > 1 \<and> f ! 1 \<noteq> [] then out\<lparr>time_utc := strncpy (f ! 1) 15\<rparr> else out);
          out2 = (if n > 2 \<and> f ! 2 \<noteq> []
                  then (if deref (f ! 2) = CHR ''A'' then out1\<lparr>has_fix := True\<rparr> else out1)
                  else out1)
      in if n > 6
         then out2\<lparr>lat_deg := deg_to_decimal (f ! 3) (f ! 4), lon_deg := deg_to_decimal (f ! 5) (f ! 6)\<rparr>
         else out2)"

text \<open>
  The text that is tokenised: the copy of at most 255 characters, without the leading
  \<open>$\<close>, cut at the first \<open>*\<close>.
\<close>

definition sentence_body :: "string \<Rightarrow> string" where
  "sentence_body line =
     (let buf = strncpy line 255;
          p = (if deref buf = CHR ''$'' then drop 1 buf else buf)
      in takeWhile (\<lambda>c. c \<noteq> CHR ''*'') p)"

definition nmea_parse_line ::
  "(string \<Rightarrow> int) \<Rightarrow> (string \<Rightarrow> string \<Rightarrow> 'd) \<Rightarrow> string option \<Rightarrow> 'd nmea_info_t option \<Rightarrow> (bool \<times> 'd nmea_info_t option) outcome" where
  "nmea_parse_line atoi deg_to_decimal line out =
     (case line of
        None \<Rightarrow> Return (False, out)
      | Some l \<Rightarrow>
          (case out of
             None \<Rightarrow> Return (False, None)
           | Some acc \<Rightarrow>
               (case checksum_ok (Some l) of
                  Undefined_Behaviour \<Rightarrow> Undefined_Behaviour
                | Return ok \<Rightarrow>
                    if \<not> ok then Return (False, Some acc)
                    else (let p = sentence_body l
                          in if take 5 p = ''GPGGA'' \<or> take 5 p = ''GNGGA''
                             then Return (True, Some (gga_fields atoi deg_to_decimal (split_fields p) acc))
                             else if take 5 p = ''GPRMC'' \<or> take 5 p = ''GNRMC''
                             then Return (True, Some (rmc_fields deg_to_decimal (split_fields p) acc))
                             else Return (True, Some acc)))))"

subsection \<open>Reference definitions for the sentence format\<close>

text \<open>
  The value of a hexadecimal digit and of a pair of them, the XOR of the characters of a
  sentence body, and the comma-separated fields of a text (empty fields included);
  \<open>tokens\<close> are the non-empty fields.
\<close>

definition hex_digit_value :: "char \<Rightarrow> nat option" where
  "hex_digit_value = map_of (zip ''0123456789ABCDEF'' [0..<16] @ zip ''abcdef'' [10..<16])"

definition hex_pair_value :: "string \<Rightarrow> nat option" where
  "hex_pair_value s =
     (case s of
        a # b # _ \<Rightarrow>
          (case (hex_digit_value a, hex_digit_value b) of
             (Some x, Some y) \<Rightarrow> Some (16 * x + y)
           | _ \<Rightarrow> None)
      | _ \<Rightarrow> None)"

definition xor_all :: "string \<Rightarrow> uint8_t" where
  "xor_all body = foldr (\<lambda>c a. of_char c XOR a) body 0"

primrec split_commas :: "string \<Rightarrow> string list" where
  "split_commas [] = [[]]"
| "split_commas (c # s) =
     (if c = CHR '','' then [] # split_commas s
      else (case split_commas s of [] \<Rightarrow> [[c]] | f # fs \<Rightarrow> (c # f) # fs))"

definition tokens :: "string \<Rightarrow> string list" where
  "tokens s = filter (\<lambda>f. f \<noteq> []) (split_commas s)"

text \<open>
  A line as a sentence \<open>$ body * checksum\<close>: \<open>body_of\<close> is what lies strictly between
  the leading \<open>$\<close> and the first \<open>*\<close>, \<open>checksum_of\<close> what follows that \<open>*\<close>. A line is
  a valid sentence when it starts with \<open>$\<close>, has a \<open>*\<close>, and what follows the \<open>*\<close>
  starts with two hexadecimal digits whose value is the XOR of the body.
  \<open>star_ends_line\<close> describes the lines that end right after the \<open>*\<close> of such a frame.
\<close>

definition body_of :: "string \<Rightarrow> string" where
  "body_of line = takeWhile (\<lambda>c. c \<noteq> CHR ''*'') (drop 1 line)"

definition checksum_of :: "string \<Rightarrow> string" where
  "checksum_of line = drop 1 (dropWhile (\<lambda>c. c \<noteq> CHR ''*'') (drop 1 line))"

definition framed :: "string \<Rightarrow> bool" where
  "framed line \<longleftrightarrow>
     deref line = CHR ''$'' \<and> CHR ''*'' \<in> set (drop 1 line) \<and> CHR 0x00 \<notin> set (body_of line)"

definition valid_sentence :: "string \<Rightarrow> bool" where
  "valid_sentence line \<longleftrightarrow>
     framed line \<and> hex_pair_value (checksum_of line) = Some (unat (xor_all (body_of line)))"

definition star_ends_line :: "string \<Rightarrow> bool" where
  "star_ends_line line \<longleftrightarrow> framed line \<and> checksum_of line = []"

text \<open>
  The decoding of a sentence text \<open>t\<close> (the part between \<open>$\<close> and \<open>*\<close>) into the
  accumulator, field by field, over the first 16 non-empty fields \<open>f\<close> of \<open>t\<close>: a field
  of the accumulator changes when \<open>f\<close> has the entry it is read from.
\<close>

definition reference_decode ::
  "(string \<Rightarrow> int) \<Rightarrow> (string \<Rightarrow> string \<Rightarrow> 'd) \<Rightarrow> string \<Rightarrow> 'd nmea_info_t \<Rightarrow> 'd nmea_info_t" where
  "reference_decode atoi deg_to_decimal t acc =
     (let f = take 16 (tokens t); n = length f
      in if take 5 t = ''GPGGA'' \<or> take 5 t = ''GNGGA''
         then \<lparr>has_fix = (if 6 < n then 0 < atoi (f ! 6) else has_fix acc),
               fix_quality = (if 6 < n then atoi (f ! 6) else fix_quality acc),
               sats = (if 7 < n then atoi (f ! 7) else sats acc),
               lat_deg = (if 5 < n then deg_to_decimal (f ! 2) (f ! 3) else lat_deg acc),
               lon_deg = (if 5 < n then deg_to_decimal (f ! 4) (f ! 5) else lon_deg acc),
               time_utc = (if 1 < n then take 15 (f ! 1) else time_utc acc)\<rparr>
         else if take 5 t = ''GPRMC'' \<or> take 5 t = ''GNRMC''
         then \<lparr>has_fix = (has_fix acc \<or> (2 < n \<and> hd (f ! 2) = CHR ''A'')),
               fix_quality = fix_quality acc,
               sats = sats acc,
               lat_deg = (if 6 < n then deg_to_decimal (f ! 3) (f ! 4) else lat_deg acc),
               lon_deg = (if 6 < n then deg_to_decimal (f ! 5) (f ! 6) else lon_deg acc),
               time_utc = (if 1 < n then take 15 (f ! 1) else time_utc acc)\<rparr>
         else acc)"

text \<open>
  The C library's \<open>atoi\<close> on a decimal string whose value fits an \<open>int\<close>: optional white
  space, an optional sign, then digits. It instantiates the \<open>atoi\<close> parameter in the
  examples.
\<close>

definition isspace :: "char \<Rightarrow> bool" where
  "isspace c \<longleftrightarrow> c = CHR '' '' \<or> (CHR 0x09 \<le> c \<and> c \<le> CHR 0x0D)"

definition isdigit :: "char \<Rightarrow> bool" where
  "isdigit c \<longleftrightarrow> CHR ''0'' \<le> c \<and> c \<le> CHR ''9''"

definition c_atoi :: "string \<Rightarrow> int" where
  "c_atoi s =
     (let s1 = dropWhile isspace s;
          neg = (deref s1 = CHR ''-'');
          s2 = (if deref s1 = CHR ''-'' \<or> deref s1 = CHR ''+'' then drop 1 s1 else s1);
          v = foldl (\<lambda>a c. 10 * a + (of_char c - of_char CHR ''0'')) 0 (takeWhile isdigit s2)
      in if neg then - v else v)"

text \<open>
  A zero-initialised accumulator for the examples. There the conversion parameter is
  \<open>Pair\<close>, so a coordinate field shows the two tokens handed to the conversion.
\<close>

abbreviation zero_info :: "(string \<times> string) nmea_info_t" where
  "zero_info \<equiv> \<lparr>has_fix = False, fix_quality = 0, sats = 0, lat_deg = ('''', ''''),
                 lon_deg = ('''', ''''), time_utc = ''''\<rparr>"

section \<open>Properties of the bit parser\<close>

lemma drop_bit_and_1: "drop_bit k (w :: uint8_t) AND 1 = (if bit w k then 1 else 0)"
  by (simp add: and_one_eq bit_iff_odd_drop_bit mod_2_eq_odd)

lemma push_or_bit: "push_bit 1 (v :: uint32_t) OR (if c then 1 else 0) = 2 * v + (if c then 1 else 0)"
  by (simp add: or_one_eq push_bit_eq_mult)

lemma unat_byte_idx:
  fixes pos i :: size_t
  assumes "unat pos + unat i < 2 ^ 64"
  shows "unat ((pos + i) div 8) = (unat pos + unat i) div 8"
    and "unat (7 - ((pos + i) mod 8)) = 7 - (unat pos + unat i) mod 8"
proof -
  have s: "unat (pos + i) = unat pos + unat i"
    using assms by (simp add: unat_add_lem [THEN iffD1])
  show "unat ((pos + i) div 8) = (unat pos + unat i) div 8"
    by (simp add: unat_div s)
  have m: "unat ((pos + i) mod 8) = (unat pos + unat i) mod 8"
    by (simp add: unat_mod s)
  have "(pos + i) mod 8 \<le> 7"
    by (simp add: word_le_nat_alt m) 
  then have "unat (7 - ((pos + i) mod 8)) = unat (7 :: size_t) - unat ((pos + i) mod 8)"
    by (rule unat_sub)
  then show "unat (7 - ((pos + i) mod 8)) = 7 - (unat pos + unat i) mod 8"
    by (simp add: m)
qed

lemma read_loop_value:
  assumes "unat i \<le> unat n"
    and "unat (bit_pos p) + unat n \<le> unat (bit_length p)"
    and "unat (bit_length p) \<le> 8 * length (data p)"
  shows "read_loop p n i v =
     Return (v * 2 ^ (unat n - unat i) +
       of_nat (\<Sum>k = unat i..<unat n. stream_bit (data p) (unat (bit_pos p) + k) * 2 ^ (unat n - 1 - k)))"
  using assms
proof (induction p n i v rule: read_loop.induct)
  case (1 p n i v)
  show ?case
  proof (cases "i < n")
    case False
    with "1.prems" have "unat i = unat n"
      by (simp add: word_less_nat_alt)
    with False show ?thesis
      by (simp add: read_loop.simps [of p n i v])
  next
    case True
    then have lt: "unat i < unat n"
      by (simp add: word_less_nat_alt)
    have L: "unat (bit_length p) < 2 ^ 64"
      using unsigned_less [of "bit_length p"] by simp
    from lt "1.prems" L have nowrap: "unat (bit_pos p) + unat i < 2 ^ 64"
      by linarith
    note idx = unat_byte_idx [OF nowrap]
    from lt "1.prems" have inb: "(unat (bit_pos p) + unat i) div 8 < length (data p)"
      by linarith
    have suc: "unat (i + 1) = Suc (unat i)"
    proof -
      have "unat n < 2 ^ LENGTH(64)" by (rule unsigned_less)
      with lt have "unat i + unat (1 :: size_t) < 2 ^ LENGTH(64)" by simp
      then have "unat (i + 1) = unat i + unat (1 :: size_t)"
        by (simp only: unat_add_lem [THEN iffD1])
      then show ?thesis by simp
    qed
    let ?c = "bit (data p ! ((unat (bit_pos p) + unat i) div 8)) (7 - (unat (bit_pos p) + unat i) mod 8)"
    let ?v' = "2 * v + (if ?c then 1 else 0)"
    have step: "read_loop p n i v = read_loop p n (i + 1) ?v'"
      using True inb
      by (simp add: read_loop.simps [of p n i v] idx drop_bit_and_1 push_or_bit [symmetric] if_distrib [of ucast] Let_def)
    have v'_eq: "push_bit 1 v OR ucast (drop_bit (unat (7 - (bit_pos p + i) mod 8)) (data p ! unat ((bit_pos p + i) div 8)) AND (1 :: uint8_t)) = ?v'"
      by (simp add: idx drop_bit_and_1 push_or_bit [symmetric] if_distrib [of ucast])
    have ih: "read_loop p n (i + 1) ?v' =
       Return (?v' * 2 ^ (unat n - unat (i + 1)) +
         of_nat (\<Sum>k = unat (i + 1)..<unat n. stream_bit (data p) (unat (bit_pos p) + k) * 2 ^ (unat n - 1 - k)))"
    proof -
      have le: "unat (i + 1) \<le> unat n"
        using lt suc by simp
      have nb: "\<not> length (data p) \<le> unat ((bit_pos p + i) div 8)"
        using inb by (simp add: idx)
      show ?thesis
        using "1.IH" [OF True refl refl nb refl le "1.prems"(2,3)]
        unfolding v'_eq .
    qed
    have split_sum: "(\<Sum>k = unat i..<unat n. stream_bit (data p) (unat (bit_pos p) + k) * 2 ^ (unat n - 1 - k))
        = stream_bit (data p) (unat (bit_pos p) + unat i) * 2 ^ (unat n - 1 - unat i)
          + (\<Sum>k = Suc (unat i)..<unat n. stream_bit (data p) (unat (bit_pos p) + k) * 2 ^ (unat n - 1 - k))"
      using lt by (simp add: sum.atLeast_Suc_lessThan)
    have pow: "(2 :: uint32_t) ^ (unat n - unat i) = 2 * 2 ^ (unat n - 1 - unat i)"
    proof -
      from lt have "unat n - unat i = Suc (unat n - 1 - unat i)" by simp
      then show ?thesis by (simp only: power_Suc)
    qed
    have sb: "(of_nat (stream_bit (data p) (unat (bit_pos p) + unat i)) :: uint32_t) = (if ?c then 1 else 0)"
      by (simp add: stream_bit_def)
    show ?thesis
      unfolding step ih suc split_sum pow
      by (simp add: stream_bit_def algebra_simps)
  qed
qed

lemma msb_first_value_less: "msb_first_value B pos n < 2 ^ n"
proof -
  have "msb_first_value B pos n \<le> (\<Sum>k<n. 2 ^ (n - 1 - k))"
    unfolding msb_first_value_def
    by (rule sum_mono) (simp add: stream_bit_def)
  also have "\<dots> = (\<Sum>k<n. 2 ^ (n - Suc k))"
    by simp
  also have "\<dots> = (\<Sum>k<n. 2 ^ k)"
    by (rule sum.nat_diff_reindex)
  also have "\<dots> < 2 ^ n"
    by (induction n) simp_all
  finally show ?thesis .
qed

text \<open>
  C1. For a parser over a buffer that holds \<open>bit_length\<close> bits, a read of 1 to 32 bits
  that stays within \<open>bit_length\<close> returns the unsigned value of the bits at the cursor,
  most significant first under the indexing rule, and moves the cursor forward by
  \<open>num_bits\<close>.
\<close>

theorem bit_parser_read_msb_first:
  assumes "1 \<le> unat n" and "unat n \<le> 32"
    and "unat (bit_pos p) + unat n \<le> unat (bit_length p)"
    and "unat (bit_length p) \<le> 8 * length (data p)"
  shows "\<exists>v. bit_parser_read p n = Return (v, p\<lparr>bit_pos := bit_pos p + n\<rparr>)
           \<and> unat v = msb_first_value (data p) (unat (bit_pos p)) (unat n)
           \<and> unat (bit_pos p + n) = unat (bit_pos p) + unat n"
proof -
  let ?m = "msb_first_value (data p) (unat (bit_pos p)) (unat n)"
  have L: "unat (bit_length p) < 2 ^ 64"
    using unsigned_less [of "bit_length p"] by simp
  with assms(3) have nowrap: "unat (bit_pos p) + unat n < 2 ^ LENGTH(64)"
    by simp
  then have sum: "unat (bit_pos p + n) = unat (bit_pos p) + unat n"
    by (simp only: unat_add_lem [THEN iffD1])
  have n0: "n \<noteq> 0"
    using assms(1) by auto
  have n32: "\<not> 32 < n"
    using assms(2) by (simp add: word_less_nat_alt)
  have inr: "\<not> bit_length p < bit_pos p + n"
    using assms(3) by (simp add: word_less_nat_alt sum)
  have loop: "read_loop p n 0 0 = Return (of_nat ?m)"
    using read_loop_value [of 0 n p 0, OF _ assms(3,4)]
    by (simp add: msb_first_value_def atLeast0LessThan)
  have "?m < 2 ^ unat n"
    by (rule msb_first_value_less)
  also have "(2 :: nat) ^ unat n \<le> 2 ^ 32"
    using assms(2) by (intro power_increasing) simp_all
  finally have "?m < 2 ^ LENGTH(32)"
    by simp
  then have "unat (of_nat ?m :: uint32_t) = ?m"
    by (simp add: unat_of_nat)
  with loop n0 n32 inr sum show ?thesis
    by (simp add: bit_parser_read_def)
qed

theorem bit_parser_read_msb_first_witness:
  "1 \<le> unat (8 :: size_t) \<and> unat (8 :: size_t) \<le> 32
   \<and> (\<exists>v. bit_parser_read \<lparr>data = [0xA5, 0x3C], bit_length = 16, bit_pos = 4\<rparr> 8
            = Return (v, \<lparr>data = [0xA5, 0x3C], bit_length = 16, bit_pos = 12\<rparr>)
          \<and> unat v = msb_first_value [0xA5, 0x3C] 4 8)
   \<and> msb_first_value [0xA5, 0x3C] 4 8 = 0x53"
proof -
  let ?p = "\<lparr>data = [0xA5, 0x3C], bit_length = 16, bit_pos = 4\<rparr>"
  have h1: "1 \<le> unat (8 :: size_t)" by simp
  have h2: "unat (8 :: size_t) \<le> 32" by simp
  have h3: "unat (bit_pos ?p) + unat (8 :: size_t) \<le> unat (bit_length ?p)" by simp
  have h4: "unat (bit_length ?p) \<le> 8 * length (data ?p)" by simp
  have v: "msb_first_value [0xA5, 0x3C] 4 8 = 0x53"
    by (simp add: msb_first_value_def stream_bit_def lessThan_nat_numeral lessThan_Suc bit_numeral_simps)
  from bit_parser_read_msb_first [OF h1 h2 h3 h4] v show ?thesis
    by simp
qed

text \<open>
  C7. A read of zero bits, of more than 32 bits, or of more bits than remain before
  \<open>bit_length\<close> returns 0 and leaves the parser as it was. The parser is one over a
  buffer: the cursor is within \<open>bit_length\<close>, the buffer holds \<open>bit_length\<close> bits, and
  the buffer has fewer than \<open>2 ^ 61 - 4\<close> bytes, as every buffer of the 64-bit target
  has; for a request of zero or of more than 32 bits nothing is asked of the parser.
\<close>

theorem bit_parser_read_rejects:
  assumes "unat n = 0 \<or> 32 < unat n
     \<or> (unat (bit_length p) < unat (bit_pos p) + unat n
        \<and> bit_pos p \<le> bit_length p \<and> unat (bit_length p) \<le> 8 * length (data p)
        \<and> length (data p) < 2 ^ 61 - 4)"
  shows "bit_parser_read p n = Return (0, p)"
proof (cases "unat n = 0 \<or> 32 < unat n")
  case True
  then show ?thesis
    by (auto simp add: bit_parser_read_def word_less_nat_alt unat_eq_0)
next
  case False
  with assms have over: "unat (bit_length p) < unat (bit_pos p) + unat n"
    and pos: "bit_pos p \<le> bit_length p" and len: "unat (bit_length p) \<le> 8 * length (data p)"
    and buf: "length (data p) < 2 ^ 61 - 4"
    by auto
  from pos have "unat (bit_pos p) \<le> unat (bit_length p)"
    by (simp add: word_le_nat_alt)
  with len buf False have "unat (bit_pos p) + unat n < 2 ^ LENGTH(64)"
    by simp
  then have "unat (bit_pos p + n) = unat (bit_pos p) + unat n"
    by (simp only: unat_add_lem [THEN iffD1])
  with over have "bit_length p < bit_pos p + n"
    by (simp add: word_less_nat_alt)
  then show ?thesis
    by (simp add: bit_parser_read_def)
qed

theorem bit_parser_read_rejects_witness:
  "unat (bit_length \<lparr>data = [0xA5, 0x3C], bit_length = 16, bit_pos = 12\<rparr>)
     < unat (bit_pos \<lparr>data = [0xA5, 0x3C], bit_length = 16, bit_pos = 12\<rparr>) + unat (8 :: size_t)
   \<and> bit_pos \<lparr>data = [0xA5, 0x3C], bit_length = 16, bit_pos = 12\<rparr>
       \<le> bit_length \<lparr>data = [0xA5, 0x3C], bit_length = 16, bit_pos = 12\<rparr>
   \<and> unat (bit_length \<lparr>data = [0xA5, 0x3C], bit_length = 16, bit_pos = 12\<rparr>)
       \<le> 8 * length (data \<lparr>data = [0xA5, 0x3C], bit_length = 16, bit_pos = 12\<rparr>)
   \<and> length (data \<lparr>data = [0xA5, 0x3C], bit_length = 16, bit_pos = 12\<rparr>) < 2 ^ 61 - 4
   \<and> bit_parser_read \<lparr>data = [0xA5, 0x3C], bit_length = 16, bit_pos = 12\<rparr> 8
     = Return (0, \<lparr>data = [0xA5, 0x3C], bit_length = 16, bit_pos = 12\<rparr>)"
proof -
  let ?p = "\<lparr>data = [0xA5, 0x3C], bit_length = 16, bit_pos = 12\<rparr>"
  have h: "unat (bit_length ?p) < unat (bit_pos ?p) + unat (8 :: size_t)
     \<and> bit_pos ?p \<le> bit_length ?p \<and> unat (bit_length ?p) \<le> 8 * length (data ?p)
     \<and> length (data ?p) < 2 ^ 61 - 4"
    by simp
  then have "unat (8 :: size_t) = 0 \<or> 32 < unat (8 :: size_t)
     \<or> (unat (bit_length ?p) < unat (bit_pos ?p) + unat (8 :: size_t)
        \<and> bit_pos ?p \<le> bit_length ?p \<and> unat (bit_length ?p) \<le> 8 * length (data ?p)
        \<and> length (data ?p) < 2 ^ 61 - 4)"
    by (intro disjI2)
  from bit_parser_read_rejects [OF this] h show ?thesis
    by (simp only: conj_assoc simp_thms)
qed

text \<open>
  Where \<open>cursor + num_bits\<close> is representable, \<open>bit_parser_skip\<close> advances by
  \<open>num_bits\<close> within \<open>bit_length\<close> and clamps to \<open>bit_length\<close> beyond it.
\<close>

lemma bit_parser_skip_no_wrap:
  assumes "unat (bit_pos p) + unat n < 2 ^ 64"
  shows "bit_parser_skip p n =
     (if unat (bit_pos p) + unat n \<le> unat (bit_length p)
      then p\<lparr>bit_pos := bit_pos p + n\<rparr> else p\<lparr>bit_pos := bit_length p\<rparr>)"
    and "unat (bit_pos p) + unat n \<le> unat (bit_length p) \<Longrightarrow>
           unat (bit_pos (bit_parser_skip p n)) = unat (bit_pos p) + unat n"
  using assms
  by (simp_all add: bit_parser_skip_def word_le_nat_alt unat_add_lem [THEN iffD1])

text \<open>
  C8. Skipping past the end is to clamp the cursor to \<open>bit_length\<close>. The source adds
  \<open>bit_pos + num_bits\<close> in \<open>size_t\<close> before comparing: on a 16-bit stream with the
  cursor at 8, a skip of \<open>2 ^ 64 - 4\<close> bits passes the end, the sum wraps to 4, the test
  succeeds and the cursor moves back to 4.
\<close>

theorem bit_parser_skip_wraps:
  "unat (bit_length \<lparr>data = [0xA5, 0x3C], bit_length = 16, bit_pos = 8\<rparr>)
     < unat (bit_pos \<lparr>data = [0xA5, 0x3C], bit_length = 16, bit_pos = 8\<rparr>)
         + unat (0xFFFFFFFFFFFFFFFC :: size_t)
   \<and> bit_parser_skip \<lparr>data = [0xA5, 0x3C], bit_length = 16, bit_pos = 8\<rparr> 0xFFFFFFFFFFFFFFFC
     = \<lparr>data = [0xA5, 0x3C], bit_length = 16, bit_pos = 4\<rparr>"
  by (simp add: bit_parser_skip_def)

section \<open>Properties of the queue\<close>

lemma length_queue_contents: "queue_inv q \<Longrightarrow> length (queue_contents q) = unat (count q)"
  by (auto simp add: queue_inv_def queue_contents_def split: option.splits)

lemma unat_succ_mod:
  fixes x c :: size_t
  assumes "x < c"
  shows "unat ((x + 1) mod c) = Suc (unat x) mod unat c"
proof -
  from assms have a: "unat x < unat c"
    by (simp add: word_less_nat_alt)
  have b: "unat c < 2 ^ LENGTH(64)"
    by (rule unsigned_less)
  have c: "unat (1 :: size_t) = 1"
    by simp
  from a b c have "unat x + unat (1 :: size_t) < 2 ^ LENGTH(64)"
    by linarith
  then have "unat (x + 1) = unat x + unat (1 :: size_t)"
    by (simp only: unat_add_lem [THEN iffD1])
  then show ?thesis
    by (simp add: unat_mod)
qed

lemma unat_succ:
  fixes x c :: size_t
  assumes "x < c"
  shows "unat (x + 1) = Suc (unat x)"
proof -
  from assms have a: "unat x < unat c"
    by (simp add: word_less_nat_alt)
  have b: "unat c < 2 ^ LENGTH(64)"
    by (rule unsigned_less)
  have c: "unat (1 :: size_t) = 1"
    by simp
  from a b c have "unat x + unat (1 :: size_t) < 2 ^ LENGTH(64)"
    by linarith
  then have "unat (x + 1) = unat x + unat (1 :: size_t)"
    by (simp only: unat_add_lem [THEN iffD1])
  then show ?thesis
    by simp
qed

lemma unat_pred:
  fixes x :: size_t
  assumes "x \<noteq> 0"
  shows "unat (x - 1) = unat x - 1"
  using assms by (simp add: unat_minus_one)

lemma ring_slots_distinct:
  fixes h k n c :: nat
  assumes "k < n" and "n < c"
  shows "(h + k) mod c \<noteq> (h + n) mod c"
proof
  assume "(h + k) mod c = (h + n) mod c"
  then have "c dvd (h + n) - (h + k)"
    by (metis mod_eq_dvd_iff_nat add_le_cancel_left assms(1) less_imp_le)
  then have "c dvd n - k" by simp
  moreover from assms have "0 < n - k" and "n - k < c" by simp_all
  ultimately show False
    by (simp add: nat_dvd_not_less)
qed

lemma queue_inv_slot:
  assumes "queue_inv q" and "items q = Some slots" and "k < unat (count q)"
  shows "(unat (head q) + k) mod unat (capacity q) < length slots"
  using assms by (simp add: queue_inv_def list_all_iff)

lemma queue_enqueue_full:
  assumes "count q = capacity q"
  shows "queue_enqueue (Some q) (Some it) = Return (False, Some q)"
  using assms by (simp add: queue_enqueue_def queue_is_full_def)

lemma queue_enqueue_outside:
  assumes "count q \<noteq> capacity q" and "items q = Some slots" and "length slots \<le> unat (tail q)"
  shows "queue_enqueue (Some q) (Some it) = Undefined_Behaviour"
  using assms by (simp add: queue_enqueue_def queue_is_full_def)

lemma queue_sized_tail:
  assumes "queue_inv q" and "queue_sized q" and "items q = Some slots"
  shows "unat (tail q) < length slots"
  using assms by (simp add: queue_inv_def queue_sized_def word_less_nat_alt)

lemma queue_enqueue_sim:
  assumes inv: "queue_inv q" and room: "count q \<noteq> capacity q"
    and slots: "items q = Some slots" and inside: "unat (tail q) < length slots"
  shows "\<exists>q'. queue_enqueue (Some q) (Some it) = Return (True, Some q') \<and> queue_inv q'
           \<and> capacity q' = capacity q \<and> (queue_sized q \<longrightarrow> queue_sized q')
           \<and> queue_contents q' = queue_contents q @ [it]"
proof -
  from inv have cap0: "capacity q \<noteq> 0" and cle: "count q \<le> capacity q"
    and hlt: "head q < capacity q" and tlt: "tail q < capacity q"
    and teq: "unat (tail q) = (unat (head q) + unat (count q)) mod unat (capacity q)"
    by (simp_all add: queue_inv_def)
  from cle room have clt: "count q < capacity q"
    by simp
  let ?c = "unat (capacity q)" and ?h = "unat (head q)" and ?t = "unat (tail q)" and ?n = "unat (count q)"
  let ?q' = "q\<lparr>items := Some (slots[?t := it]), tail := (tail q + 1) mod capacity q, count := count q + 1\<rparr>"
  from tlt have t_c: "?t < ?c" by (simp add: word_less_nat_alt)
  from clt have n_c: "?n < ?c" by (simp add: word_less_nat_alt)
  from hlt have h_c: "?h < ?c" by (simp add: word_less_nat_alt)
  have run: "queue_enqueue (Some q) (Some it) = Return (True, Some ?q')"
    using room slots inside cap0 by (simp add: queue_enqueue_def queue_is_full_def)
  have n': "unat (count q + 1) = Suc ?n"
    using clt by (rule unat_succ)
  have t': "unat ((tail q + 1) mod capacity q) = Suc ?t mod ?c"
    using tlt by (rule unat_succ_mod)
  have t'': "Suc ?t mod ?c = (?h + Suc ?n) mod ?c"
    by (simp add: teq mod_Suc_eq)
  have occupied: "(?h + k) mod ?c < length slots" if "k < Suc ?n" for k
  proof (cases "k < ?n")
    case True
    with inv slots show ?thesis by (rule queue_inv_slot)
  next
    case False
    with that have "k = ?n" by simp
    with inside show ?thesis by (simp add: teq)
  qed
  have "queue_inv ?q'"
    using cap0 h_c n_c t_c occupied
    by (simp add: queue_inv_def word_less_nat_alt word_le_nat_alt n' t' t'' list_all_iff)
  moreover have "queue_sized q \<longrightarrow> queue_sized ?q'"
    using slots by (simp add: queue_sized_def)
  moreover have "queue_contents ?q' = queue_contents q @ [it]"
  proof -
    have old: "slots[?t := it] ! ((?h + k) mod ?c) = slots ! ((?h + k) mod ?c)" if "k < ?n" for k
    proof -
      from ring_slots_distinct [OF that n_c, of ?h] have "?t \<noteq> (?h + k) mod ?c"
        unfolding teq by (rule not_sym)
      then show ?thesis
        by (rule nth_list_update_neq)
    qed
    have new: "slots[?t := it] ! ((?h + ?n) mod ?c) = it"
      using inside by (simp add: teq [symmetric])
    show ?thesis
      using old new by (simp add: queue_contents_def slots n')
  qed
  ultimately show ?thesis
    using run by auto
qed

lemma queue_dequeue_empty:
  assumes "count q = 0"
  shows "queue_dequeue (Some q) (Some out) = Return (False, Some q, Some out)"
  using assms by (simp add: queue_dequeue_def queue_is_empty_def)

lemma queue_dequeue_sim:
  assumes inv: "queue_inv q" and some: "count q \<noteq> 0"
  shows "\<exists>q' x. queue_dequeue (Some q) (Some out) = Return (True, Some q', Some x) \<and> queue_inv q'
           \<and> capacity q' = capacity q \<and> (queue_sized q \<longrightarrow> queue_sized q')
           \<and> queue_contents q = x # queue_contents q'"
proof -
  from inv obtain slots where slots: "items q = Some slots"
    by (auto simp add: queue_inv_def split: option.splits)
  from inv have cap0: "capacity q \<noteq> 0" and cle: "count q \<le> capacity q"
    and hlt: "head q < capacity q" and tlt: "tail q < capacity q"
    and teq: "unat (tail q) = (unat (head q) + unat (count q)) mod unat (capacity q)"
    by (simp_all add: queue_inv_def)
  let ?c = "unat (capacity q)" and ?h = "unat (head q)" and ?t = "unat (tail q)" and ?n = "unat (count q)"
  let ?q' = "q\<lparr>head := (head q + 1) mod capacity q, count := count q - 1\<rparr>"
  from tlt have t_c: "?t < ?c" by (simp add: word_less_nat_alt)
  from cle have n_c: "?n \<le> ?c" by (simp add: word_le_nat_alt)
  from hlt have h_c: "?h < ?c" by (simp add: word_less_nat_alt)
  from some have n0: "0 < ?n" by (simp add: unat_gt_0)
  from queue_inv_slot [OF inv slots n0] h_c have inside: "?h < length slots"
    by simp
  have run: "queue_dequeue (Some q) (Some out) = Return (True, Some ?q', Some (slots ! ?h))"
    using some slots inside cap0 by (simp add: queue_dequeue_def queue_is_empty_def)
  have n': "unat (count q - 1) = ?n - 1"
    using some by (rule unat_pred)
  have h': "unat ((head q + 1) mod capacity q) = Suc ?h mod ?c"
    using hlt by (rule unat_succ_mod)
  have shift: "\<And>k. (Suc ?h mod ?c + k) mod ?c = (?h + Suc k) mod ?c"
    by (simp add: mod_add_left_eq)
  have teq': "?t = (Suc ?h mod ?c + (?n - 1)) mod ?c"
  proof -
    from n0 obtain m where m: "?n = Suc m"
      by (cases "?n") simp_all
    show ?thesis
      unfolding teq m by (simp add: shift)
  qed
  have occupied: "(Suc ?h mod ?c + k) mod ?c < length slots" if "k < ?n - 1" for k
  proof -
    from that have "Suc k < ?n" by simp
    from queue_inv_slot [OF inv slots this] show ?thesis
      by (simp add: shift)
  qed
  have "queue_inv ?q'"
    using slots cap0 h_c n_c t_c tlt n0 teq' occupied
    by (simp add: queue_inv_def word_less_nat_alt word_le_nat_alt n' h' list_all_iff)
  moreover have "queue_sized q \<longrightarrow> queue_sized ?q'"
    by (simp add: queue_sized_def split: option.splits)
  moreover have "queue_contents q = slots ! ?h # queue_contents ?q'"
  proof -
    from n0 have "[0..<?n] = 0 # map Suc [0..<?n - 1]"
      by (metis Suc_pred' map_Suc_upt upt_conv_Cons)
    then show ?thesis
      using h_c by (simp add: queue_contents_def slots n' h' shift comp_def)
  qed
  ultimately show ?thesis
    using run by auto
qed

lemma unat_size_product:
  fixes cap :: size_t
  assumes "unat cap * unat sizeof_QueueItem < 2 ^ 64"
  shows "unat (sizeof_QueueItem * cap) div unat sizeof_QueueItem = unat cap"
proof -
  from assms have "unat sizeof_QueueItem * unat cap < 2 ^ LENGTH(64)"
    by (simp add: mult.commute)
  then have "unat (sizeof_QueueItem * cap) = unat sizeof_QueueItem * unat cap"
    by (simp only: unat_mult_lem [THEN iffD1])
  then show ?thesis
    by (simp add: sizeof_QueueItem_def)
qed

lemma queue_init_inv:
  assumes "queue_init (Some q0) cap malloc_result = (True, q)"
  shows "\<exists>Q. q = Some Q \<and> queue_inv Q \<and> capacity Q = cap \<and> count Q = 0 \<and> queue_contents Q = []
           \<and> (unat cap * unat sizeof_QueueItem < 2 ^ 64 \<longrightarrow> queue_sized Q)"
proof -
  from assms have cap0: "cap \<noteq> 0"
    by (auto simp add: queue_init_def split: if_splits)
  with assms obtain garbage where "malloc_result = Some garbage"
    by (cases malloc_result) (auto simp add: queue_init_def)
  let ?slots = "map garbage [0..<unat (sizeof_QueueItem * cap) div unat sizeof_QueueItem]"
  let ?Q = "q0\<lparr>items := Some ?slots, capacity := cap, head := 0, tail := 0, count := 0\<rparr>"
  from assms cap0 \<open>malloc_result = Some garbage\<close> have q: "q = Some ?Q"
    by (simp add: queue_init_def Let_def)
  have "queue_inv ?Q"
    using cap0 by (simp add: queue_inv_def word_greater_zero_iff)
  moreover have "queue_contents ?Q = []"
    by (simp add: queue_contents_def)
  moreover have "queue_sized ?Q" if "unat cap * unat sizeof_QueueItem < 2 ^ 64"
    using unat_size_product [OF that] by (simp add: queue_sized_def)
  ultimately show ?thesis
    using q by simp
qed

lemma queue_run_sim:
  assumes "queue_inv q"
  shows "case queue_run (Some q) out ops of
           Undefined_Behaviour \<Rightarrow> \<not> queue_sized q
         | Return (obs, q', out') \<Rightarrow>
             (\<exists>Q. q' = Some Q \<and> queue_inv Q \<and> capacity Q = capacity q
                \<and> (queue_sized q \<longrightarrow> queue_sized Q)
                \<and> fifo_run (unat (capacity q)) (queue_contents q) out ops = (obs, queue_contents Q, out'))"
  using assms
proof (induction ops arbitrary: q out)
  case Nil
  then show ?case by simp
next
  case (Cons op ops)
  note len = length_queue_contents [OF Cons.prems]
  from Cons.prems have cle: "count q \<le> capacity q"
    by (simp add: queue_inv_def)
  from Cons.prems obtain slots where slots: "items q = Some slots"
    by (auto simp add: queue_inv_def split: option.splits)
  show ?case
  proof (cases op)
    case (Enqueue it)
    show ?thesis
    proof (cases "count q = capacity q")
      case True
      from Cons.IH [OF Cons.prems, of out] show ?thesis
        by (auto simp add: Enqueue queue_enqueue_full [OF True] len True split: outcome.splits)
    next
      case False
      from cle False have room: "unat (count q) < unat (capacity q)"
        by (simp add: word_less_nat_alt [symmetric])
      show ?thesis
      proof (cases "unat (tail q) < length slots")
        case True
        from queue_enqueue_sim [OF Cons.prems False slots True, of it] obtain q1
          where q1: "queue_enqueue (Some q) (Some it) = Return (True, Some q1)" "queue_inv q1"
            "capacity q1 = capacity q" "queue_sized q \<longrightarrow> queue_sized q1"
            "queue_contents q1 = queue_contents q @ [it]"
          by blast
        from Cons.IH [OF q1(2), of out] q1(4) room show ?thesis
          by (auto simp add: Enqueue q1(1,3,5) len split: outcome.splits)
      next
        case outside: False
        then have "queue_enqueue (Some q) (Some it) = Undefined_Behaviour"
          using queue_enqueue_outside [OF False slots] by simp
        moreover from outside have "\<not> queue_sized q"
          using queue_sized_tail [OF Cons.prems _ slots] by blast
        ultimately show ?thesis
          by (simp add: Enqueue)
      qed
    qed
  next
    case Dequeue
    show ?thesis
    proof (cases "count q = 0")
      case True
      with len have "queue_contents q = []"
        by simp
      with Cons.IH [OF Cons.prems, of out] show ?thesis
        by (auto simp add: Dequeue queue_dequeue_empty [OF True] split: outcome.splits)
    next
      case False
      from queue_dequeue_sim [OF Cons.prems False, of out] obtain q1 x
        where q1: "queue_dequeue (Some q) (Some out) = Return (True, Some q1, Some x)" "queue_inv q1"
          "capacity q1 = capacity q" "queue_sized q \<longrightarrow> queue_sized q1"
          "queue_contents q = x # queue_contents q1"
        by blast
      from Cons.IH [OF q1(2), of x] q1(4) show ?thesis
        by (auto simp add: Dequeue q1(1,3,5) split: outcome.splits)
    qed
  qed
qed

lemma queue_run_returns:
  assumes "queue_inv q" and "queue_sized q"
  shows "\<exists>obs Q out'. queue_run (Some q) out ops = Return (obs, Some Q, out')"
  using queue_run_sim [OF assms(1), of out ops] assms(2)
  by (auto split: outcome.splits)

lemma queue_run_fifo:
  assumes "queue_inv q" and "queue_run (Some q) out ops = Return (obs, q', out')"
  shows "\<exists>Q. q' = Some Q \<and> queue_inv Q \<and> capacity Q = capacity q
           \<and> fifo_run (unat (capacity q)) (queue_contents q) out ops = (obs, queue_contents Q, out')"
  using queue_run_sim [OF assms(1), of out ops] assms(2)
  by auto

lemma fifo_run_order:
  assumes "fifo_run cap xs out ops = (obs, xs', out')"
  shows "xs @ accepted ops obs = delivered obs @ xs'"
  using assms
proof (induction ops arbitrary: xs out obs)
  case Nil
  then show ?case by simp
next
  case (Cons op ops)
  show ?case
  proof (cases op)
    case (Enqueue it)
    with Cons.prems Cons.IH show ?thesis
      by (fastforce split: if_splits prod.splits)
  next
    case Dequeue
    with Cons.prems Cons.IH show ?thesis
      by (fastforce split: list.splits prod.splits)
  qed
qed

lemma fifo_run_enqueues:
  assumes "length ys + length xs \<le> cap"
  shows "fifo_run cap ys out (map Enqueue xs @ rest) =
     (case fifo_run cap (ys @ xs) out rest of
        (obs, r) \<Rightarrow> (replicate (length xs) (Enqueue_returned True) @ obs, r))"
  using assms
proof (induction xs arbitrary: ys)
  case Nil
  then show ?case by (simp split: prod.splits)
next
  case (Cons x xs)
  from Cons.prems have "length (ys @ [x]) + length xs \<le> cap"
    by simp
  from Cons.IH [OF this] Cons.prems show ?case
    by (simp split: prod.splits)
qed

lemma fifo_run_dequeues:
  "fifo_run cap (xs @ zs) out (replicate (length xs) Dequeue @ rest) =
     (case fifo_run cap zs (last (out # xs)) rest of
        (obs, r) \<Rightarrow> (map (Dequeue_returned True) xs @ obs, r))"
proof (induction xs arbitrary: out)
  case Nil
  then show ?case by (simp split: prod.splits)
next
  case (Cons x xs)
  from Cons.IH [of x] show ?case
    by (simp split: prod.splits)
qed

text \<open>
  Where the size product does not wrap, the queue behaves as a bounded queue of
  \<open>cap\<close> slots: on a queue just created, \<open>cap\<close> enqueues return true, one more returns
  false, \<open>cap\<close> dequeues deliver the items in order, and the queue reports empty.
\<close>

lemma queue_fill_and_drain_no_wrap:
  assumes "cap \<noteq> 0" and "unat cap * unat sizeof_QueueItem < 2 ^ 64" and "length xs = unat cap"
  shows "\<exists>q q' out'.
           queue_init (Some q0) cap (Some garbage) = (True, Some q) \<and> queue_is_empty (Some q)
           \<and> queue_run (Some q) out (map Enqueue xs @ [Enqueue y] @ replicate (unat cap) Dequeue)
               = Return (replicate (unat cap) (Enqueue_returned True) @ [Enqueue_returned False]
                           @ map (Dequeue_returned True) xs, Some q', out')
           \<and> queue_is_empty (Some q')"
proof -
  from assms(1) obtain q where init: "queue_init (Some q0) cap (Some garbage) = (True, Some q)"
    by (simp add: queue_init_def Let_def)
  from queue_init_inv [OF init] assms(2)
  have q: "queue_inv q" "capacity q = cap" "count q = 0" "queue_contents q = []" "queue_sized q"
    by simp_all
  let ?ops = "map Enqueue xs @ [Enqueue y] @ replicate (unat cap) Dequeue"
  from queue_run_returns [OF q(1,5), of out ?ops] obtain obs q' out'
    where run: "queue_run (Some q) out ?ops = Return (obs, Some q', out')"
    by blast
  from queue_run_fifo [OF q(1) run]
  have inv': "queue_inv q'" and sim: "fifo_run (unat cap) [] out ?ops = (obs, queue_contents q', out')"
    by (simp_all add: q)
  have "fifo_run (unat cap) [] out ?ops =
      (replicate (unat cap) (Enqueue_returned True) @ [Enqueue_returned False]
         @ map (Dequeue_returned True) xs, [], last (out # xs))"
    using fifo_run_enqueues [of "[]" xs "unat cap" out "[Enqueue y] @ replicate (unat cap) Dequeue"]
      fifo_run_dequeues [of "unat cap" xs "[]" out "[]"] assms(3)
    by simp
  with sim have obs: "obs = replicate (unat cap) (Enqueue_returned True) @ [Enqueue_returned False]
         @ map (Dequeue_returned True) xs" and empty: "queue_contents q' = []"
    by simp_all
  from empty length_queue_contents [OF inv'] have "count q' = 0"
    by (simp add: unat_eq_0)
  with init run obs q(3) show ?thesis
    by (simp add: queue_is_empty_def)
qed

text \<open>
  C3. Every capacity \<open>c > 0\<close> is to give a queue that takes \<open>c\<close> items. For
  \<open>c = 2 ^ 61 + 1\<close> the product \<open>sizeof(QueueItem) * c\<close> wraps to 264: \<open>queue_init\<close> asks
  for one slot, succeeds, and records the capacity \<open>c\<close>. The first enqueue fills the slot;
  the second is not refused, since the queue is not full, and writes past the block.
\<close>

theorem queue_capacity_overflow:
  "sizeof_QueueItem * 0x2000000000000001 = 264
   \<and> queue_init (Some zero_queue) 0x2000000000000001 fresh_block
       = (True, Some \<lparr>items = Some [item_U], capacity = 0x2000000000000001,
                      head = 0, tail = 0, count = 0\<rparr>)
   \<and> queue_enqueue (Some \<lparr>items = Some [item_U], capacity = 0x2000000000000001,
                          head = 0, tail = 0, count = 0\<rparr>) (Some item_A)
       = Return (True, Some \<lparr>items = Some [item_A], capacity = 0x2000000000000001,
                             head = 0, tail = 1, count = 1\<rparr>)
   \<and> queue_enqueue (Some \<lparr>items = Some [item_A], capacity = 0x2000000000000001,
                          head = 0, tail = 1, count = 1\<rparr>) (Some item_B)
       = Undefined_Behaviour"
  by (simp add: sizeof_QueueItem_def queue_init_def queue_enqueue_def queue_is_full_def Let_def)

text \<open>
  C4. On a created queue, whatever the capacity, every sequence of enqueues and dequeues
  that runs without undefined behaviour observes exactly what the list-based FIFO queue
  of that capacity observes, and the items delivered by the successful dequeues are, in
  order, the first items accepted by the successful enqueues: the k-th delivered item is
  the k-th accepted item. Where the size product of the allocation does not wrap, every
  sequence runs without undefined behaviour.
\<close>

theorem queue_fifo_order:
  assumes "queue_init (Some q0) cap malloc_result = (True, q)"
  shows "(unat cap * unat sizeof_QueueItem < 2 ^ 64 \<longrightarrow>
            (\<exists>obs q' out'. queue_run q out ops = Return (obs, q', out')))
         \<and> (\<forall>obs q' out'. queue_run q out ops = Return (obs, q', out') \<longrightarrow>
               obs = fst (fifo_run (unat cap) [] out ops)
               \<and> delivered obs = take (length (delivered obs)) (accepted ops obs))"
proof -
  from queue_init_inv [OF assms] obtain Q
    where Q: "q = Some Q" "queue_inv Q" "capacity Q = cap" "queue_contents Q = []"
      and sized: "unat cap * unat sizeof_QueueItem < 2 ^ 64 \<longrightarrow> queue_sized Q"
    by blast
  have "\<exists>obs q' out'. queue_run q out ops = Return (obs, q', out')"
    if "unat cap * unat sizeof_QueueItem < 2 ^ 64"
    using queue_run_returns [OF Q(2), of out ops] sized that by (auto simp add: Q(1))
  moreover have "obs = fst (fifo_run (unat cap) [] out ops)
      \<and> delivered obs = take (length (delivered obs)) (accepted ops obs)"
    if run: "queue_run q out ops = Return (obs, q', out')" for obs q' out'
  proof -
    from queue_run_fifo [OF Q(2), of out ops obs q' out'] run obtain Q'
      where sim: "fifo_run (unat cap) [] out ops = (obs, queue_contents Q', out')"
      by (auto simp add: Q)
    from fifo_run_order [OF sim] have "accepted ops obs = delivered obs @ queue_contents Q'"
      by simp
    then have "delivered obs = take (length (delivered obs)) (accepted ops obs)"
      by simp
    with sim show ?thesis
      by simp
  qed
  ultimately show ?thesis
    by blast
qed

theorem queue_fifo_order_witness:
  "queue_init (Some zero_queue) 2 fresh_block
     = (True, Some \<lparr>items = Some [item_U, item_U], capacity = 2, head = 0, tail = 0, count = 0\<rparr>)
   \<and> unat (2 :: size_t) * unat sizeof_QueueItem < 2 ^ 64
   \<and> queue_run (Some \<lparr>items = Some [item_U, item_U], capacity = 2, head = 0, tail = 0, count = 0\<rparr>)
         item_U [Enqueue item_A, Enqueue item_B, Dequeue, Enqueue item_C, Enqueue item_A, Dequeue, Dequeue, Dequeue]
       = Return ([Enqueue_returned True, Enqueue_returned True, Dequeue_returned True item_A,
                  Enqueue_returned True, Enqueue_returned False, Dequeue_returned True item_B,
                  Dequeue_returned True item_C, Dequeue_returned False item_C],
                 Some \<lparr>items = Some [item_C, item_B], capacity = 2, head = 1, tail = 1, count = 0\<rparr>, item_C)
   \<and> ([Enqueue_returned True, Enqueue_returned True, Dequeue_returned True item_A,
        Enqueue_returned True, Enqueue_returned False, Dequeue_returned True item_B,
        Dequeue_returned True item_C, Dequeue_returned False item_C]
       = fst (fifo_run (unat (2 :: size_t)) [] item_U
           [Enqueue item_A, Enqueue item_B, Dequeue, Enqueue item_C, Enqueue item_A, Dequeue, Dequeue, Dequeue])
      \<and> delivered [Enqueue_returned True, Enqueue_returned True, Dequeue_returned True item_A,
                  Enqueue_returned True, Enqueue_returned False, Dequeue_returned True item_B,
                  Dequeue_returned True item_C, Dequeue_returned False item_C]
          = take (length (delivered [Enqueue_returned True, Enqueue_returned True, Dequeue_returned True item_A,
                  Enqueue_returned True, Enqueue_returned False, Dequeue_returned True item_B,
                  Dequeue_returned True item_C, Dequeue_returned False item_C]))
              (accepted [Enqueue item_A, Enqueue item_B, Dequeue, Enqueue item_C, Enqueue item_A, Dequeue, Dequeue, Dequeue]
                 [Enqueue_returned True, Enqueue_returned True, Dequeue_returned True item_A,
                  Enqueue_returned True, Enqueue_returned False, Dequeue_returned True item_B,
                  Dequeue_returned True item_C, Dequeue_returned False item_C]))"
proof -
  let ?q = "\<lparr>items = Some [item_U, item_U], capacity = 2, head = 0, tail = 0, count = 0\<rparr>"
  let ?ops = "[Enqueue item_A, Enqueue item_B, Dequeue, Enqueue item_C, Enqueue item_A, Dequeue, Dequeue, Dequeue]"
  let ?obs = "[Enqueue_returned True, Enqueue_returned True, Dequeue_returned True item_A,
                  Enqueue_returned True, Enqueue_returned False, Dequeue_returned True item_B,
                  Dequeue_returned True item_C, Dequeue_returned False item_C]"
  have h1: "queue_init (Some zero_queue) 2 fresh_block = (True, Some ?q)"
    by (simp add: queue_init_def sizeof_QueueItem_def Let_def upt_rec)
  have h2: "unat (2 :: size_t) * unat sizeof_QueueItem < 2 ^ 64"
    by (simp add: sizeof_QueueItem_def)
  have run: "queue_run (Some ?q) item_U ?ops
      = Return (?obs, Some \<lparr>items = Some [item_C, item_B], capacity = 2, head = 1, tail = 1, count = 0\<rparr>, item_C)"
    by (simp add: queue_enqueue_def queue_dequeue_def queue_is_full_def queue_is_empty_def Let_def)
  note fifo = queue_fifo_order [OF h1, of item_U ?ops, THEN conjunct2, rule_format, OF run]
  show ?thesis
    by (rule conjI [OF h1 conjI [OF h2 conjI [OF run fifo]]])
qed

text \<open>
  C9. Every state reached from a successful \<open>queue_init\<close>, whatever the capacity, by a
  sequence of enqueues and dequeues has \<open>0 \<le> count \<le> capacity\<close>, \<open>count = 0\<close> exactly when
  \<open>queue_is_empty\<close>, \<open>count = capacity\<close> exactly when \<open>queue_is_full\<close>, and \<open>head\<close> and
  \<open>tail\<close> below \<open>capacity\<close>. Where the size product of the allocation does not wrap,
  every sequence reaches such a state.
\<close>

theorem queue_reachable_invariant:
  assumes "queue_init (Some q0) cap malloc_result = (True, q)"
  shows "(unat cap * unat sizeof_QueueItem < 2 ^ 64 \<longrightarrow>
            (\<exists>obs q' out'. queue_run q out ops = Return (obs, q', out')))
         \<and> (\<forall>obs q' out'. queue_run q out ops = Return (obs, q', out') \<longrightarrow>
               (\<exists>Q. q' = Some Q \<and> 0 \<le> count Q \<and> count Q \<le> capacity Q
                  \<and> (count Q = 0 \<longleftrightarrow> queue_is_empty (Some Q))
                  \<and> (count Q = capacity Q \<longleftrightarrow> queue_is_full (Some Q))
                  \<and> head Q < capacity Q \<and> tail Q < capacity Q))"
proof -
  from queue_init_inv [OF assms] obtain Q0
    where Q0: "q = Some Q0" "queue_inv Q0"
      and sized: "unat cap * unat sizeof_QueueItem < 2 ^ 64 \<longrightarrow> queue_sized Q0"
    by blast
  have "\<exists>obs q' out'. queue_run q out ops = Return (obs, q', out')"
    if "unat cap * unat sizeof_QueueItem < 2 ^ 64"
    using queue_run_returns [OF Q0(2), of out ops] sized that by (auto simp add: Q0(1))
  moreover have "\<exists>Q. q' = Some Q \<and> 0 \<le> count Q \<and> count Q \<le> capacity Q
                  \<and> (count Q = 0 \<longleftrightarrow> queue_is_empty (Some Q))
                  \<and> (count Q = capacity Q \<longleftrightarrow> queue_is_full (Some Q))
                  \<and> head Q < capacity Q \<and> tail Q < capacity Q"
    if run: "queue_run q out ops = Return (obs, q', out')" for obs q' out'
  proof -
    from queue_run_fifo [OF Q0(2), of out ops obs q' out'] run obtain Q
      where Q: "q' = Some Q" "queue_inv Q"
      by (auto simp add: Q0(1))
    from Q(2) have "count Q \<le> capacity Q" "head Q < capacity Q" "tail Q < capacity Q"
      by (simp_all add: queue_inv_def)
    with Q(1) show ?thesis
      by (simp add: queue_is_empty_def queue_is_full_def)
  qed
  ultimately show ?thesis
    by blast
qed

theorem queue_reachable_invariant_witness:
  "queue_init (Some zero_queue) 2 fresh_block
     = (True, Some \<lparr>items = Some [item_U, item_U], capacity = 2, head = 0, tail = 0, count = 0\<rparr>)
   \<and> unat (2 :: size_t) * unat sizeof_QueueItem < 2 ^ 64
   \<and> queue_run (Some \<lparr>items = Some [item_U, item_U], capacity = 2, head = 0, tail = 0, count = 0\<rparr>)
         item_U [Enqueue item_A, Dequeue, Enqueue item_B, Enqueue item_C]
       = Return ([Enqueue_returned True, Dequeue_returned True item_A, Enqueue_returned True,
                  Enqueue_returned True],
                 Some \<lparr>items = Some [item_C, item_B], capacity = 2, head = 1, tail = 1, count = 2\<rparr>, item_A)
   \<and> (\<exists>Q. Some \<lparr>items = Some [item_C, item_B], capacity = 2, head = 1, tail = 1, count = 2\<rparr> = Some Q
         \<and> 0 \<le> count Q \<and> count Q \<le> capacity Q
         \<and> (count Q = 0 \<longleftrightarrow> queue_is_empty (Some Q))
         \<and> (count Q = capacity Q \<longleftrightarrow> queue_is_full (Some Q))
         \<and> head Q < capacity Q \<and> tail Q < capacity Q)"
proof -
  let ?q = "\<lparr>items = Some [item_U, item_U], capacity = 2, head = 0, tail = 0, count = 0\<rparr>"
  let ?ops = "[Enqueue item_A, Dequeue, Enqueue item_B, Enqueue item_C]"
  have h1: "queue_init (Some zero_queue) 2 fresh_block = (True, Some ?q)"
    by (simp add: queue_init_def sizeof_QueueItem_def Let_def upt_rec)
  have h2: "unat (2 :: size_t) * unat sizeof_QueueItem < 2 ^ 64"
    by (simp add: sizeof_QueueItem_def)
  have run: "queue_run (Some ?q) item_U ?ops
      = Return ([Enqueue_returned True, Dequeue_returned True item_A, Enqueue_returned True,
                  Enqueue_returned True],
                 Some \<lparr>items = Some [item_C, item_B], capacity = 2, head = 1, tail = 1, count = 2\<rparr>, item_A)"
    by (simp add: queue_enqueue_def queue_dequeue_def queue_is_full_def queue_is_empty_def Let_def)
  note inv = queue_reachable_invariant [OF h1, of item_U ?ops, THEN conjunct2, rule_format, OF run]
  show ?thesis
    by (rule conjI [OF h1 conjI [OF h2 conjI [OF run inv]]])
qed

section \<open>Properties of the sentence decoder\<close>

lemma hex2uc_value:
  "hex2uc c = (case hex_digit_value c of None \<Rightarrow> 0xFF | Some v \<Rightarrow> of_nat v)"
  by (cases c) (simp add: hex2uc_def hex_digit_value_def less_eq_char_def upt_rec)

lemma hex_digit_value_less: "hex_digit_value c = Some v \<Longrightarrow> v < 16"
  by (auto simp add: hex_digit_value_def upt_rec split: if_splits)

lemma nibbles_nat:
  fixes x y :: nat
  assumes "y < 16"
  shows "push_bit 4 x OR y = 16 * x + y"
proof -
  have "push_bit 4 x + y = push_bit 4 x OR y"
  proof (rule disjunctive_add)
    fix n
    show "\<not> bit (push_bit 4 x) n \<or> \<not> bit y n"
    proof (cases "n < 4")
      case True
      then show ?thesis by (simp add: bit_push_bit_iff)
    next
      case False
      then have "(2 :: nat) ^ 4 \<le> 2 ^ n"
        by (intro power_increasing) simp_all
      with assms have "y < 2 ^ n" by simp
      then have "\<not> bit y n"
        by (simp add: bit_iff_odd)
      then show ?thesis by simp
    qed
  qed
  then show ?thesis
    by (simp add: push_bit_eq_mult)
qed

lemma checksum_compare:
  fixes cs :: uint8_t
  assumes "x < 16" and "y < 16"
  shows "((ucast cs :: 32 word) = push_bit 4 (ucast (of_nat x :: uint8_t)) OR ucast (of_nat y :: uint8_t))
           \<longleftrightarrow> unat cs = 16 * x + y"
proof -
  have ux: "(ucast (of_nat x :: uint8_t) :: 32 word) = of_nat x"
    using assms(1) by (simp add: unsigned_of_nat take_bit_nat_eq_self)
  have uy: "(ucast (of_nat y :: uint8_t) :: 32 word) = of_nat y"
    using assms(2) by (simp add: unsigned_of_nat take_bit_nat_eq_self)
  have "(push_bit 4 (of_nat x) OR of_nat y :: 32 word) = of_nat (push_bit 4 x OR y)"
    by (simp add: of_nat_or_eq of_nat_push_bit)
  then have rhs: "(push_bit 4 (of_nat x) OR of_nat y :: 32 word) = of_nat (16 * x + y)"
    using assms(2) by (simp only: nibbles_nat)
  have lhs: "(ucast cs :: 32 word) = of_nat (unat cs)"
    by simp
  have a: "unat cs < 2 ^ 32"
    using unsigned_less [of cs, where 'a = nat] by simp
  have b: "16 * x + y < 2 ^ 32"
    using assms by simp
  have "((of_nat (unat cs) :: 32 word) = of_nat (16 * x + y)) \<longleftrightarrow> unat cs = 16 * x + y"
  proof -
    from a have ta: "take_bit LENGTH(32) (unat cs) = unat cs"
      by (simp add: take_bit_nat_eq_self)
    from b have tb: "take_bit LENGTH(32) (16 * x + y) = 16 * x + y"
      by (simp add: take_bit_nat_eq_self)
    show ?thesis
      by (simp only: word_of_nat_eq_iff ta tb)
  qed
  then show ?thesis
    unfolding ux uy rhs lhs .
qed

lemma checksum_scan_no_star:
  assumes "CHR ''*'' \<notin> set l"
  shows "deref (snd (checksum_scan cs l)) \<noteq> CHR ''*''"
  using assms by (induction l arbitrary: cs) (auto simp add: deref_def)

lemma checksum_scan_nul:
  assumes "CHR 0x00 \<in> set body" and "CHR ''*'' \<notin> set body"
  shows "deref (snd (checksum_scan cs (body @ r))) = CHR 0x00"
  using assms by (induction body arbitrary: cs) (auto simp add: deref_def)

lemma checksum_scan_to_star:
  assumes "CHR 0x00 \<notin> set body" and "CHR ''*'' \<notin> set body"
  shows "checksum_scan cs (body @ CHR ''*'' # rest) = (cs XOR xor_all body, CHR ''*'' # rest)"
  using assms by (induction body arbitrary: cs) (auto simp add: xor_all_def xor.assoc)

lemma hex_pair_test:
  fixes cs :: uint8_t
  shows "(let hi = hex2uc (deref rest); lo = hex2uc (deref (drop 1 rest))
          in \<not> (hi = 0xFF \<or> lo = 0xFF) \<and> (ucast cs :: 32 word) = (push_bit 4 (ucast hi) OR ucast lo))
         \<longleftrightarrow> hex_pair_value rest = Some (unat cs)"
proof -
  have nul: "hex_digit_value (CHR 0x00) = None"
    by (simp add: hex_digit_value_def upt_rec)
  have ff: "(of_nat v :: uint8_t) \<noteq> 0xFF" if "v < 16" for v :: nat
  proof
    assume "(of_nat v :: uint8_t) = 0xFF"
    then have "unat (of_nat v :: uint8_t) = unat (0xFF :: uint8_t)" by simp
    with that show False by (simp add: unat_of_nat)
  qed
  show ?thesis
  proof (cases rest)
    case Nil
    then show ?thesis
      by (simp add: hex_pair_value_def deref_def hex2uc_value nul)
  next
    case (Cons a r1)
    note rest = this
    show ?thesis
    proof (cases r1)
      case Nil
      with rest show ?thesis
        by (simp add: hex_pair_value_def deref_def hex2uc_value nul split: option.splits)
    next
      case (Cons b r2)
      note r1 = this
      show ?thesis
      proof (cases "hex_digit_value a")
        case None
        then show ?thesis
          by (simp add: hex_pair_value_def deref_def hex2uc_value rest r1)
      next
        case (Some x)
        note x = this
        show ?thesis
        proof (cases "hex_digit_value b")
          case None
          then show ?thesis
            by (simp add: hex_pair_value_def deref_def hex2uc_value rest r1 x)
        next
          case (Some y)
          from hex_digit_value_less [OF x] hex_digit_value_less [OF Some]
          have xy: "x < 16" "y < 16" .
          from checksum_compare [OF xy, of cs] ff [OF xy(1)] ff [OF xy(2)]
          show ?thesis
            by (auto simp add: hex_pair_value_def deref_def hex2uc_value rest r1 x Some)
        qed
      qed
    qed
  qed
qed

lemma checksum_ok_no_star:
  assumes "CHR ''*'' \<notin> set (drop 1 line)"
  shows "checksum_ok (Some line) = Return False"
  using checksum_scan_no_star [OF assms, of 0]
  by (auto simp add: checksum_ok_def split: prod.splits)

lemma checksum_ok_framed:
  assumes "CHR ''*'' \<notin> set body"
  shows "checksum_ok (Some (CHR ''$'' # body @ CHR ''*'' # rest)) =
     (if CHR 0x00 \<in> set body then Return False
      else if rest = [] then Undefined_Behaviour
      else Return (hex_pair_value rest = Some (unat (xor_all body))))"
proof (cases "CHR 0x00 \<in> set body")
  case True
  from checksum_scan_nul [OF True assms, of 0 "CHR ''*'' # rest"] True show ?thesis
    by (auto simp add: checksum_ok_def split: prod.splits)
next
  case False
  note scan = checksum_scan_to_star [OF False assms, of 0 rest]
  show ?thesis
  proof (cases "rest = []")
    case True
    from False show ?thesis
      unfolding True
      by (simp add: checksum_ok_def checksum_scan_to_star [OF False assms, of 0 "[]"] deref_def)
  next
    case nonempty: False
    then have len: "\<not> length (CHR ''*'' # rest) < 2"
      by (cases rest) simp_all
    have "checksum_ok (Some (CHR ''$'' # body @ CHR ''*'' # rest)) =
        Return (let hi = hex2uc (deref rest); lo = hex2uc (deref (drop 1 rest))
          in \<not> (hi = 0xFF \<or> lo = 0xFF)
             \<and> (ucast (xor_all body) :: 32 word) = (push_bit 4 (ucast hi) OR ucast lo))"
      using len by (simp add: checksum_ok_def scan deref_def Let_def)
    then show ?thesis
      using False nonempty by (simp only: hex_pair_test if_False)
  qed
qed

lemma split_at_star:
  assumes "CHR ''*'' \<notin> set body"
  shows "takeWhile (\<lambda>c. c \<noteq> CHR ''*'') (body @ CHR ''*'' # rest) = body
         \<and> dropWhile (\<lambda>c. c \<noteq> CHR ''*'') (body @ CHR ''*'' # rest) = CHR ''*'' # rest"
  using assms by (induction body) auto

lemma frame_split:
  assumes "CHR ''*'' \<in> set s"
  shows "s = takeWhile (\<lambda>c. c \<noteq> CHR ''*'') s @ CHR ''*'' # drop 1 (dropWhile (\<lambda>c. c \<noteq> CHR ''*'') s)"
proof -
  from assms have "dropWhile (\<lambda>c. c \<noteq> CHR ''*'') s \<noteq> []"
    by auto
  then obtain c r where d: "dropWhile (\<lambda>c. c \<noteq> CHR ''*'') s = c # r"
    by (cases "dropWhile (\<lambda>c. c \<noteq> CHR ''*'') s") auto
  from hd_dropWhile [of "\<lambda>c. c \<noteq> CHR ''*''" s] d have "c = CHR ''*''"
    by auto
  with d takeWhile_dropWhile_id [of "\<lambda>c. c \<noteq> CHR ''*''" s] show ?thesis
    by simp
qed

lemma checksum_ok_sentence:
  "checksum_ok (Some line) =
     (if star_ends_line line then Undefined_Behaviour else Return (valid_sentence line))"
proof (cases "deref line = CHR ''$''")
  case False
  then show ?thesis
    by (simp add: checksum_ok_def valid_sentence_def star_ends_line_def framed_def)
next
  case True
  then obtain s where line: "line = CHR ''$'' # s"
    by (cases line) (auto simp add: deref_def)
  show ?thesis
  proof (cases "CHR ''*'' \<in> set s")
    case False
    with checksum_ok_no_star [of line] show ?thesis
      by (simp add: line valid_sentence_def star_ends_line_def framed_def)
  next
    case star: True
    let ?body = "takeWhile (\<lambda>c. c \<noteq> CHR ''*'') s"
    let ?rest = "drop 1 (dropWhile (\<lambda>c. c \<noteq> CHR ''*'') s)"
    have nb: "CHR ''*'' \<notin> set ?body"
      by (auto dest: set_takeWhileD)
    from frame_split [OF star] have "checksum_ok (Some line) =
        checksum_ok (Some (CHR ''$'' # ?body @ CHR ''*'' # ?rest))"
      by (simp add: line)
    also note checksum_ok_framed [OF nb, of ?rest]
    finally show ?thesis
      using star by (auto simp add: line valid_sentence_def star_ends_line_def framed_def
          body_of_def checksum_of_def deref_def)
  qed
qed

text \<open>
  A line that is not a valid sentence, and does not end right after the \<open>*\<close> of a frame,
  is rejected with the accumulator unchanged; that covers the line without \<open>*\<close>, the
  malformed pair of hexadecimal digits and the checksum that differs from the XOR of the
  body, with or without a leading \<open>$\<close>.
\<close>

lemma nmea_parse_line_rejects_invalid:
  assumes "\<not> star_ends_line line" and "\<not> valid_sentence line"
  shows "nmea_parse_line atoi deg (Some line) (Some acc) = Return (False, Some acc)"
  using assms by (simp add: nmea_parse_line_def checksum_ok_sentence)

lemma invalid_sentence_cases:
  assumes "CHR ''*'' \<notin> set line
     \<or> (\<exists>pre rest. line = pre @ CHR ''*'' # rest \<and> CHR ''*'' \<notin> set pre
           \<and> (hex_pair_value rest = None
               \<or> (\<exists>body v. pre = CHR ''$'' # body \<and> hex_pair_value rest = Some v
                      \<and> v \<noteq> unat (xor_all body))))"
  shows "\<not> valid_sentence line"
  using assms
proof
  assume "CHR ''*'' \<notin> set line"
  then have "CHR ''*'' \<notin> set (drop 1 line)"
    by (auto dest: in_set_dropD)
  then show ?thesis
    by (simp add: valid_sentence_def framed_def)
next
  assume "\<exists>pre rest. line = pre @ CHR ''*'' # rest \<and> CHR ''*'' \<notin> set pre
           \<and> (hex_pair_value rest = None
               \<or> (\<exists>body v. pre = CHR ''$'' # body \<and> hex_pair_value rest = Some v
                      \<and> v \<noteq> unat (xor_all body)))"
  then obtain pre rest where line: "line = pre @ CHR ''*'' # rest" and pre: "CHR ''*'' \<notin> set pre"
    and bad: "hex_pair_value rest = None
               \<or> (\<exists>body v. pre = CHR ''$'' # body \<and> hex_pair_value rest = Some v
                      \<and> v \<noteq> unat (xor_all body))"
    by blast
  show ?thesis
  proof (cases pre)
    case Nil
    then show ?thesis
      by (simp add: line valid_sentence_def framed_def deref_def)
  next
    case (Cons c body)
    with pre have body: "CHR ''*'' \<notin> set body"
      by simp
    from split_at_star [OF body, of rest]
    have tw: "takeWhile (\<lambda>c. c \<noteq> CHR ''*'') (body @ CHR ''*'' # rest) = body"
      and dw: "dropWhile (\<lambda>c. c \<noteq> CHR ''*'') (body @ CHR ''*'' # rest) = CHR ''*'' # rest"
      by simp_all
    from bad Cons show ?thesis
      by (auto simp add: line valid_sentence_def framed_def body_of_def checksum_of_def tw dw)
  qed
qed

text \<open>
  C2. A line with a malformed pair after \<open>*\<close> is to be rejected with the accumulator
  unchanged. \<open>checksum_ok\<close> reads \<open>*(p + 2)\<close> before it tests \<open>hi\<close>: for a line that ends
  right after \<open>*\<close> that read is outside the string, and the call has no defined result.
\<close>

theorem nmea_line_ending_at_star:
  "hex_pair_value (checksum_of ''$GPGGA,123519*'') = None
   \<and> checksum_ok (Some ''$GPGGA,123519*'') = Undefined_Behaviour
   \<and> nmea_parse_line atoi deg (Some ''$GPGGA,123519*'') (Some acc) = Undefined_Behaviour"
  by (simp add: nmea_parse_line_def checksum_ok_def deref_def hex_pair_value_def checksum_of_def)

lemma split_commas_unfold:
  "split_commas s = takeWhile (\<lambda>c. c \<noteq> CHR '','') s #
     (if CHR '','' \<in> set s then split_commas (drop 1 (dropWhile (\<lambda>c. c \<noteq> CHR '','') s)) else [])"
  by (induction s) (auto split: list.splits)

lemma strtok_tokens:
  "fst (strtok s) = (case tokens s of [] \<Rightarrow> None | t # ts \<Rightarrow> Some t)
   \<and> tokens (snd (strtok s)) = tl (tokens s)"
proof (induction s)
  case Nil
  show ?case by (simp add: strtok_def tokens_def)
next
  case (Cons c s)
  show ?case
  proof (cases "c = CHR '',''")
    case True
    have "strtok (c # s) = strtok s"
      by (simp add: strtok_def True)
    moreover have "tokens (c # s) = tokens s"
      by (simp add: tokens_def True)
    ultimately show ?thesis
      using Cons.IH by simp
  next
    case False
    let ?r = "drop 1 (dropWhile (\<lambda>c. c \<noteq> CHR '','') s)"
    have st: "strtok (c # s) = (Some (c # takeWhile (\<lambda>c. c \<noteq> CHR '','') s), ?r)"
      by (simp add: strtok_def False)
    have sc: "split_commas (c # s) = (c # takeWhile (\<lambda>c. c \<noteq> CHR '','') s) #
        (if CHR '','' \<in> set s then split_commas ?r else [])"
      using split_commas_unfold [of s] by (simp add: False)
    have "tokens ?r = []" if "CHR '','' \<notin> set s"
    proof -
      from that have d: "dropWhile (\<lambda>c. c \<noteq> CHR '','') s = []"
        by (auto simp add: dropWhile_eq_Nil_conv)
      show ?thesis
        unfolding d by (simp add: tokens_def)
    qed
    then have tk: "tokens (c # s) = (c # takeWhile (\<lambda>c. c \<noteq> CHR '','') s) # tokens ?r"
      unfolding tokens_def sc by simp
    show ?thesis
      by (simp add: st tk)
  qed
qed

lemma strtok_Nil:
  assumes "tokens s = []"
  shows "\<exists>r. strtok s = (None, r)"
  using strtok_tokens [of s] assms by (cases "strtok s") simp

lemma strtok_Cons:
  assumes "tokens s = t # ts"
  shows "\<exists>r. strtok s = (Some t, r) \<and> tokens r = ts"
  using strtok_tokens [of s] assms by (cases "strtok s") simp

lemma fields_loop_None: "fields_loop None rest f = f"
  by (simp add: fields_loop.simps)

lemma fields_loop_tokens:
  assumes "length f \<le> 16"
  shows "fields_loop (Some t) rest f = take 16 (f @ t # tokens rest)"
  using assms
proof (induction "tokens rest" arbitrary: t rest f)
  case Nil
  from strtok_Nil [OF Nil.hyps [symmetric]] obtain r where "strtok rest = (None, r)" ..
  with Nil show ?case
    by (simp add: fields_loop.simps [of "Some t"] fields_loop_None)
next
  case (Cons t' ts)
  from strtok_Cons [OF Cons.hyps(2) [symmetric]] obtain r
    where st: "strtok rest = (Some t', r)" and tk: "tokens r = ts"
    by blast
  show ?case
  proof (cases "length f < 16")
    case True
    then have le: "length (f @ [t]) \<le> 16" by simp
    have "fields_loop (Some t) rest f = fields_loop (Some t') r (f @ [t])"
      using True st by (simp add: fields_loop.simps [of "Some t" rest f])
    also have "\<dots> = take 16 ((f @ [t]) @ t' # tokens r)"
      using tk le by (intro Cons.hyps(1)) simp_all
    finally show ?thesis
      using Cons.hyps(2) [symmetric] tk by simp
  next
    case False
    with Cons.prems show ?thesis
      by (simp add: fields_loop.simps [of "Some t" rest f])
  qed
qed

lemma split_fields_tokens: "split_fields s = take 16 (tokens s)"
proof (cases "tokens s")
  case Nil
  from strtok_Nil [OF Nil] obtain r where "strtok s = (None, r)" ..
  with Nil show ?thesis
    by (simp add: split_fields_def fields_loop_None)
next
  case (Cons t ts)
  from strtok_Cons [OF Cons] obtain r where "strtok s = (Some t, r)" and "tokens r = ts"
    by blast
  with Cons fields_loop_tokens [of "[]" t r] show ?thesis
    by (simp add: split_fields_def)
qed

lemma split_commas_first: "split_commas s \<noteq> [] \<and> hd (split_commas s) = takeWhile (\<lambda>c. c \<noteq> CHR '','') s"
  by (subst (1 2) split_commas_unfold) simp

text \<open>
  C6, as amended. For an RMC sentence with a valid checksum whose time and status fields
  are not empty, \<open>has_fix\<close> afterwards is true exactly when it was true before or the
  status field begins with \<open>A\<close>. A status such as \<open>V\<close> neither sets nor clears it.
\<close>

theorem rmc_status_sets_fix:
  assumes ok: "checksum_ok (Some line) = Return True"
    and rmc: "take 5 (sentence_body line) = ''GPRMC'' \<or> take 5 (sentence_body line) = ''GNRMC''"
    and fields: "split_commas (sentence_body line) = kind # tm # status # others"
    and present: "tm \<noteq> []" "status \<noteq> []"
  shows "\<exists>acc'. nmea_parse_line atoi deg (Some line) (Some acc) = Return (True, Some acc')
           \<and> has_fix acc' = (has_fix acc \<or> hd status = CHR ''A'')"
proof -
  let ?p = "sentence_body line"
  from split_commas_first [of ?p] fields have kind: "kind = takeWhile (\<lambda>c. c \<noteq> CHR '','') ?p"
    by simp
  from rmc have "?p \<noteq> [] \<and> hd ?p = CHR ''G''"
    by (cases ?p) auto
  with kind have "kind \<noteq> []"
    by (cases ?p) auto
  with fields present have "tokens ?p = kind # tm # status # filter (\<lambda>f. f \<noteq> []) others"
    by (simp add: tokens_def)
  then have f: "length (split_fields ?p) > 2" "split_fields ?p ! 1 = tm" "split_fields ?p ! 2 = status"
    by (simp_all add: split_fields_tokens)
  from rmc have not_gga: "take 5 ?p \<noteq> ''GPGGA''" "take 5 ?p \<noteq> ''GNGGA''"
    by auto
  have run: "nmea_parse_line atoi deg (Some line) (Some acc)
      = Return (True, Some (rmc_fields deg (split_fields ?p) acc))"
    using ok rmc not_gga by (simp add: nmea_parse_line_def Let_def)
  have "has_fix (rmc_fields deg (split_fields ?p) acc) = (has_fix acc \<or> hd status = CHR ''A'')"
    using f present by (cases status) (auto simp add: rmc_fields_def Let_def deref_def)
  with run show ?thesis
    by simp
qed

lemmas nmea_eval = nmea_parse_line_def checksum_ok_def deref_def hex2uc_def sentence_body_def
  strncpy_def c_str_def split_fields_def strtok_def fields_loop.simps gga_fields_def rmc_fields_def
  less_eq_char_def Let_def

theorem rmc_status_sets_fix_witness:
  "checksum_ok (Some ''$GPRMC,123519,A,4807.038,N,01131.000,E,022.4,084.4,230394,003.1,W*6A'') = Return True
   \<and> take 5 (sentence_body ''$GPRMC,123519,A,4807.038,N,01131.000,E,022.4,084.4,230394,003.1,W*6A'') = ''GPRMC''
   \<and> split_commas (sentence_body ''$GPRMC,123519,A,4807.038,N,01131.000,E,022.4,084.4,230394,003.1,W*6A'')
       = ''GPRMC'' # ''123519'' # ''A'' #
         [''4807.038'', ''N'', ''01131.000'', ''E'', ''022.4'', ''084.4'', ''230394'', ''003.1'', ''W'']
   \<and> (\<exists>acc'. nmea_parse_line c_atoi Pair
          (Some ''$GPRMC,123519,A,4807.038,N,01131.000,E,022.4,084.4,230394,003.1,W*6A'') (Some zero_info)
          = Return (True, Some acc') \<and> has_fix acc')"
proof -
  let ?l = "''$GPRMC,123519,A,4807.038,N,01131.000,E,022.4,084.4,230394,003.1,W*6A''"
  have h1: "checksum_ok (Some ?l) = Return True"
    by (simp add: checksum_ok_def deref_def hex2uc_def less_eq_char_def)
  have b: "sentence_body ?l = ''GPRMC,123519,A,4807.038,N,01131.000,E,022.4,084.4,230394,003.1,W''"
    by (simp add: sentence_body_def strncpy_def c_str_def deref_def)
  have h2: "take 5 (sentence_body ?l) = ''GPRMC'' \<or> take 5 (sentence_body ?l) = ''GNRMC''"
    by (simp add: b)
  have h3: "split_commas (sentence_body ?l) = ''GPRMC'' # ''123519'' # ''A'' #
         [''4807.038'', ''N'', ''01131.000'', ''E'', ''022.4'', ''084.4'', ''230394'', ''003.1'', ''W'']"
    by (simp add: b)
  have h4: "''123519'' \<noteq> []" and h5: "''A'' \<noteq> []"
    by simp_all
  from rmc_status_sets_fix [OF h1 h2 h3 h4 h5, of c_atoi Pair zero_info] h1 h3 b show ?thesis
    by simp
qed

text \<open>
  C6 as stated asks for a status that is exactly \<open>A\<close>. The source compares the first
  character only: the status \<open>AB\<close> sets \<open>has_fix\<close>.
\<close>

theorem rmc_status_exactly_A_counterexample:
  "checksum_ok (Some ''$GPRMC,123519,AB*45'') = Return True
   \<and> split_commas (sentence_body ''$GPRMC,123519,AB*45'') = [''GPRMC'', ''123519'', ''AB'']
   \<and> ''AB'' \<noteq> ''A''
   \<and> nmea_parse_line c_atoi Pair (Some ''$GPRMC,123519,AB*45'') (Some zero_info)
       = Return (True, Some (zero_info\<lparr>has_fix := True, time_utc := ''123519''\<rparr>))"
  by (simp add: nmea_eval)

text \<open>
  C5. A field the sentence leaves empty is to keep its previous value. \<open>strtok\<close> skips
  empty fields, so the fields after one move up: in the usual no-fix sentence below the
  time field is empty, and the status \<open>V\<close> is stored as the time.
\<close>

theorem nmea_empty_field_shifts:
  "split_commas (sentence_body ''$GPRMC,,V,,,,,,,,,,N*53'') ! 1 = []
   \<and> nmea_parse_line atoi deg (Some ''$GPRMC,,V,,,,,,,,,,N*53'') (Some acc)
       = Return (True, Some (acc\<lparr>time_utc := ''V''\<rparr>))"
  by (simp add: nmea_eval)

lemma take_c_str:
  assumes "n \<le> length (c_str l)"
  shows "take n (c_str l) = take n l"
proof -
  have "c_str l = take (length (c_str l)) l"
    unfolding c_str_def by (rule takeWhile_eq_take)
  then have "take n (c_str l) = take n (take (length (c_str l)) l)"
    by simp
  with assms show ?thesis
    by (simp add: min_def)
qed

lemma c_str_no_nul: "CHR 0x00 \<notin> set (c_str l)"
  by (auto simp add: c_str_def dest: set_takeWhileD)

lemma split_commas_subset:
  assumes "f \<in> set (split_commas s)" and "ch \<in> set f"
  shows "ch \<in> set s"
  using assms
proof (induction s arbitrary: f)
  case Nil
  then show ?case by simp
next
  case (Cons c s)
  show ?case
  proof (cases "c = CHR '',''")
    case True
    with Cons.prems Cons.IH show ?thesis
      by auto
  next
    case False
    from split_commas_unfold [of s] obtain g gs where sc: "split_commas s = g # gs"
      by blast
    with False Cons.prems have "f = c # g \<or> f \<in> set gs"
      by simp
    then show ?thesis
    proof
      assume "f = c # g"
      with Cons.prems(2) have "ch = c \<or> ch \<in> set g"
        by simp
      with Cons.IH [of g] sc show ?thesis
        by auto
    next
      assume "f \<in> set gs"
      with Cons.IH [of f] sc Cons.prems(2) show ?thesis
        by simp
    qed
  qed
qed

lemma tokens_entry:
  assumes "x \<in> set (take 16 (tokens s))"
  shows "x \<noteq> [] \<and> set x \<subseteq> set s"
proof -
  from assms have "x \<in> set (tokens s)"
    by (rule in_set_takeD)
  then show ?thesis
    by (auto simp add: tokens_def dest: split_commas_subset)
qed

lemma strncpy_clean:
  assumes "CHR 0x00 \<notin> set x"
  shows "strncpy x n = take n x"
proof -
  from assms have "c_str x = x"
    by (auto simp add: c_str_def takeWhile_eq_all_conv)
  then show ?thesis
    by (simp add: strncpy_def)
qed

lemma fields_entry:
  assumes "CHR 0x00 \<notin> set t" and "i < length (take 16 (tokens t))"
  shows "take 16 (tokens t) ! i \<noteq> []" and "strncpy (take 16 (tokens t) ! i) n = take n (take 16 (tokens t) ! i)"
proof -
  from assms(2) have "take 16 (tokens t) ! i \<in> set (take 16 (tokens t))"
    by (rule nth_mem)
  from tokens_entry [OF this] assms(1)
  show "take 16 (tokens t) ! i \<noteq> []" and "strncpy (take 16 (tokens t) ! i) n = take n (take 16 (tokens t) ! i)"
    by (auto intro!: strncpy_clean)
qed

lemma gga_fields_reference:
  assumes "CHR 0x00 \<notin> set t" and "take 5 t = ''GPGGA'' \<or> take 5 t = ''GNGGA''"
  shows "gga_fields atoi deg (split_fields t) acc = reference_decode atoi deg t acc"
  using assms fields_entry [OF assms(1)]
  by (simp add: gga_fields_def reference_decode_def split_fields_tokens Let_def)

lemma rmc_fields_reference:
  assumes "CHR 0x00 \<notin> set t" and "take 5 t = ''GPRMC'' \<or> take 5 t = ''GNRMC''"
  shows "rmc_fields deg (split_fields t) acc = reference_decode atoi deg t acc"
proof -
  have hd: "deref x = hd x" if "x \<noteq> []" for x
    using that by (cases x) (simp_all add: deref_def)
  from assms(2) have "take 5 t \<noteq> ''GPGGA''" and "take 5 t \<noteq> ''GNGGA''"
    by auto
  with assms fields_entry [OF assms(1)] show ?thesis
    by (auto simp add: rmc_fields_def reference_decode_def split_fields_tokens Let_def hd)
qed

lemma sentence_body_long:
  assumes "256 \<le> length (c_str line)" and "deref line = CHR ''$''"
  shows "sentence_body line = takeWhile (\<lambda>c. c \<noteq> CHR ''*'') (drop 1 (take 255 line))"
    and "CHR 0x00 \<notin> set (sentence_body line)"
proof -
  from assms(1) have copy: "strncpy line 255 = take 255 line"
    by (simp add: strncpy_def take_c_str)
  from assms(1) have "line \<noteq> []"
    by (auto simp add: c_str_def)
  with assms(2) have "deref (take 255 line) = CHR ''$''"
    by (cases line) (simp_all add: deref_def)
  then show body: "sentence_body line = takeWhile (\<lambda>c. c \<noteq> CHR ''*'') (drop 1 (take 255 line))"
    by (simp add: sentence_body_def copy)
  have "CHR 0x00 \<notin> set (strncpy line 255)"
    unfolding strncpy_def using c_str_no_nul [of line] by (auto dest: in_set_takeD)
  then have "CHR 0x00 \<notin> set (drop 1 (take 255 line))"
    unfolding copy by (auto dest: in_set_dropD)
  then show "CHR 0x00 \<notin> set (sentence_body line)"
    unfolding body by (auto dest: set_takeWhileD)
qed

text \<open>
  C10. For a line of 256 characters or more: the result flag says whether the whole line
  is a valid sentence, with the XOR taken over the whole body however long; and the
  record of a valid sentence is decoded from the first 255 characters of the line only,
  the part of them between \<open>$\<close> and \<open>*\<close>. A line that ends right after its \<open>*\<close> has no
  defined result.
\<close>

theorem nmea_parse_line_truncates:
  assumes "256 \<le> length (c_str line)"
  shows "nmea_parse_line atoi deg (Some line) (Some acc) =
     (if star_ends_line line then Undefined_Behaviour
      else Return
        (if valid_sentence line
         then (True, Some (reference_decode atoi deg
                 (takeWhile (\<lambda>c. c \<noteq> CHR ''*'') (drop 1 (take 255 line))) acc))
         else (False, Some acc)))"
proof (cases "star_ends_line line \<or> \<not> valid_sentence line")
  case True
  then show ?thesis
    by (auto simp add: nmea_parse_line_def checksum_ok_sentence)
next
  case False
  then have valid: "valid_sentence line" and ok: "checksum_ok (Some line) = Return True"
    by (simp_all add: checksum_ok_sentence)
  from valid have "deref line = CHR ''$''"
    by (simp add: valid_sentence_def framed_def)
  note body = sentence_body_long [OF assms this]
  let ?t = "takeWhile (\<lambda>c. c \<noteq> CHR ''*'') (drop 1 (take 255 line))"
  from body have clean: "CHR 0x00 \<notin> set ?t"
    by simp
  have "nmea_parse_line atoi deg (Some line) (Some acc) = Return (True, Some (reference_decode atoi deg ?t acc))"
  proof (cases "take 5 ?t = ''GPGGA'' \<or> take 5 ?t = ''GNGGA''")
    case True
    with gga_fields_reference [OF clean True, of atoi deg acc] show ?thesis
      by (simp add: nmea_parse_line_def ok body(1) Let_def)
  next
    case not_gga: False
    show ?thesis
    proof (cases "take 5 ?t = ''GPRMC'' \<or> take 5 ?t = ''GNRMC''")
      case True
      with not_gga rmc_fields_reference [OF clean True, of deg acc atoi] show ?thesis
        by (simp add: nmea_parse_line_def ok body(1) Let_def)
    next
      case False
      with not_gga show ?thesis
        by (simp add: nmea_parse_line_def ok body(1) Let_def reference_decode_def)
    qed
  qed
  with False valid show ?thesis
    by simp
qed

theorem nmea_parse_line_truncates_witness:
  "256 \<le> length (c_str (''$GPRMC'' @ replicate 240 CHR ''X'' @ '',123456789,A*3B''))
   \<and> \<not> star_ends_line (''$GPRMC'' @ replicate 240 CHR ''X'' @ '',123456789,A*3B'')
   \<and> valid_sentence (''$GPRMC'' @ replicate 240 CHR ''X'' @ '',123456789,A*3B'')
   \<and> take 16 (tokens (takeWhile (\<lambda>c. c \<noteq> CHR ''*'')
          (drop 1 (take 255 (''$GPRMC'' @ replicate 240 CHR ''X'' @ '',123456789,A*3B'')))))
       = [''GPRMC'' @ replicate 240 CHR ''X'', ''12345678'']
   \<and> nmea_parse_line c_atoi Pair (Some (''$GPRMC'' @ replicate 240 CHR ''X'' @ '',123456789,A*3B''))
         (Some zero_info)
       = Return (True, Some (zero_info\<lparr>time_utc := ''12345678''\<rparr>))"
proof -
  let ?l = "''$GPRMC'' @ replicate 240 CHR ''X'' @ '',123456789,A*3B''"
  have h: "256 \<le> length (c_str ?l)"
    by code_simp
  have a: "\<not> star_ends_line ?l"
    by code_simp
  have b: "valid_sentence ?l"
    by code_simp
  have c: "take 16 (tokens (takeWhile (\<lambda>c. c \<noteq> CHR ''*'') (drop 1 (take 255 ?l))))
      = [''GPRMC'' @ replicate 240 CHR ''X'', ''12345678'']"
    by code_simp
  have d: "reference_decode c_atoi Pair (takeWhile (\<lambda>c. c \<noteq> CHR ''*'') (drop 1 (take 255 ?l))) zero_info
      = zero_info\<lparr>time_utc := ''12345678''\<rparr>"
    by code_simp
  from nmea_parse_line_truncates [OF h, of c_atoi Pair zero_info]
  have "nmea_parse_line c_atoi Pair (Some ?l) (Some zero_info)
      = Return (True, Some (zero_info\<lparr>time_utc := ''12345678''\<rparr>))"
    by (simp only: a b d if_True if_False)
  with h a b c show ?thesis
    by (intro conjI)
qed

end
